theory Spec2Isabelle
  imports Complex_Main
begin

section \<open>Values shared by both endpoints\<close>

text \<open>
  The worker handles timestamps as ISO strings and only ever does three things with such a
  string: test it for truthiness (the empty string is falsy), hand it to \<open>new Date(s)\<close> and
  read \<open>getTime()\<close> or compare the date, and store it. \<open>isostr\<close> keeps exactly what these
  observations can tell apart: the empty string, a non-empty string that \<open>Date\<close> parses to
  an instant (milliseconds since the epoch), and a non-empty string that \<open>Date\<close> cannot parse
  (\<open>getTime()\<close> is \<open>NaN\<close>). \<open>new Date().toISOString()\<close> at instant \<open>t\<close> is \<open>Instant t\<close>.
\<close>

datatype isostr = Instant int | Unparsable | Empty

text \<open>\<open>new Date(s).getTime()\<close>; \<open>None\<close> is \<open>NaN\<close>.\<close>

fun getTime :: "isostr \<Rightarrow> int option" where
  "getTime (Instant t) = Some t"
| "getTime Unparsable = None"
| "getTime Empty = None"

text \<open>Truthiness of an optional string: \<open>undefined\<close> and \<open>''\<close> are falsy.\<close>

fun truthy :: "isostr option \<Rightarrow> bool" where
  "truthy None = False"
| "truthy (Some Empty) = False"
| "truthy (Some _) = True"

text \<open>The same for ordinary text: \<open>s ? ... : ...\<close> and \<open>a || b\<close> on \<open>string | undefined\<close>.\<close>

fun truthyStr :: "string option \<Rightarrow> bool" where
  "truthyStr None = False"
| "truthyStr (Some s) = (s \<noteq> [])"

definition orStr :: "string option \<Rightarrow> string option \<Rightarrow> string option" where
  "orStr a b = (if truthyStr a then a else b)"

subsection \<open>Source items (lib/raindrop.ts)\<close>

record collection_ref =
  coll_id :: int
  coll_title :: "string option"

record RaindropItem =
  item_id :: int
  title :: string
  link :: string
  excerpt :: "string option"
  item_note :: "string option"
  tags :: "string list option"
  created :: isostr
  lastUpdate :: "isostr option"
  domain :: "string option"
  collection :: "collection_ref option"

record RaindropDetail =
  exists :: bool
  removed :: "bool option"
  collectionId :: "int option"
  detailLastUpdate :: "isostr option"

subsection \<open>Helpers of api/sync.ts and api/reconcile.ts\<close>

text \<open>A query parameter is \<open>string | string[] | undefined\<close>.\<close>

datatype qparam = Absent | Single string | Multi "string list"

fun getQP :: "qparam \<Rightarrow> string option" where
  "getQP Absent = None"
| "getQP (Single s) = Some s"
| "getQP (Multi []) = None"
| "getQP (Multi (s # _)) = Some s"

definition toLowerChar :: "char \<Rightarrow> char" where
  "toLowerChar c =
     (if 65 \<le> (of_char c :: nat) \<and> (of_char c :: nat) \<le> 90
      then char_of ((of_char c :: nat) + 32) else c)"

definition toLowerCase :: "string \<Rightarrow> string" where
  "toLowerCase s = map toLowerChar s"

definition toBool :: "string option \<Rightarrow> bool" where
  "toBool s =
     (case s of
        None \<Rightarrow> False
      | Some t \<Rightarrow> t \<noteq> [] \<and> toLowerCase t \<in> set [''1'', ''true'', ''yes'', ''on''])"

text \<open>
  \<open>parseInt(s, 10)\<close>: leading white space is skipped, one sign is read, then the longest
  run of decimal digits; no digit at all gives \<open>NaN\<close> (\<open>None\<close>). The digit strings met here
  stay far below the range where a double stops being finite.
\<close>

definition isSpace :: "char \<Rightarrow> bool" where
  "isSpace c = ((of_char c :: nat) = 32 \<or> (9 \<le> (of_char c :: nat) \<and> (of_char c :: nat) \<le> 13))"

definition isDigit :: "char \<Rightarrow> bool" where
  "isDigit c = (48 \<le> (of_char c :: nat) \<and> (of_char c :: nat) \<le> 57)"

definition digitsValue :: "string \<Rightarrow> int" where
  "digitsValue ds = foldl (\<lambda>a c. 10 * a + (int (of_char c :: nat) - 48)) 0 ds"

definition parseInt :: "string \<Rightarrow> int option" where
  "parseInt s =
     (let t = dropWhile isSpace s;
          neg = (t \<noteq> [] \<and> hd t = CHR ''-'');
          u = (if t \<noteq> [] \<and> (hd t = CHR ''-'' \<or> hd t = CHR ''+'') then tl t else t);
          ds = takeWhile isDigit u
      in if ds = [] then None
         else Some (if neg then - digitsValue ds else digitsValue ds))"

definition toIntInRange :: "string option \<Rightarrow> int \<Rightarrow> int \<Rightarrow> int \<Rightarrow> int" where
  "toIntInRange s def mn mx =
     (case (case s of None \<Rightarrow> None | Some t \<Rightarrow> if t = [] then None else parseInt t) of
        None \<Rightarrow> def
      | Some n \<Rightarrow> max mn (min mx n))"

definition envInt :: "string option \<Rightarrow> int \<Rightarrow> int" where
  "envInt v def =
     (case (case v of None \<Rightarrow> None | Some t \<Rightarrow> if t = [] then None else parseInt t) of
        None \<Rightarrow> def
      | Some n \<Rightarrow> n)"

text \<open>
  \<open>newerThan(a, b)\<close>: a falsy \<open>a\<close> is never newer, a falsy \<open>b\<close> is older than every truthy
  \<open>a\<close>, otherwise the two \<open>getTime()\<close> values are compared with \<open>>\<close>, which is false as soon
  as one of them is \<open>NaN\<close>.
\<close>

definition newerThan :: "isostr option \<Rightarrow> isostr option \<Rightarrow> bool" where
  "newerThan a b =
     (if \<not> truthy a then False
      else if \<not> truthy b then True
      else (case (Option.bind a getTime, Option.bind b getTime) of
              (Some x, Some y) \<Rightarrow> x > y
            | _ \<Rightarrow> False))"

text \<open>\<open>item.lastUpdate || item.created\<close>.\<close>

definition itemLast :: "RaindropItem \<Rightarrow> isostr option" where
  "itemLast item = (if truthy (lastUpdate item) then lastUpdate item else Some (created item))"


section \<open>The Destination: lib/notion.ts over a model of the database\<close>

text \<open>
  A page of the Notion database with the properties the worker reads or writes, and the
  page's own \<open>archived\<close> flag. The database is the list of its pages; a page's identifier is
  its position in the list, which Notion assigns at creation (a new page is appended) and
  never changes. A rich-text property is its text, the empty list of fragments being the
  empty text.
\<close>

record page =
  archived :: bool
  p_Title :: string
  p_URL :: string
  p_Tags :: "string list"
  p_Excerpt :: string
  p_Notes :: string
  p_Site :: string
  p_Collection :: string
  p_Created :: "isostr option"
  p_RaindropID :: "int option"
  p_Status :: "string option"
  p_RaindropLastUpdate :: "isostr option"
  p_SyncedAt :: "isostr option"
  p_Lock :: bool
  p_Deleted :: bool
  p_DeleteDetectedAt :: "isostr option"

type_synonym notion_db = "page list"

record NotionRow =
  rowPageId :: nat
  raindropId :: int
  rowLocked :: bool
  deletedFlag :: bool
  deleteDetectedAt :: "isostr option"

record NotionFound =
  pageId :: nat
  raindropLastUpdate :: "isostr option"
  locked :: bool

text \<open>
  \<open>notion.databases.query\<close>: the pages of the database that are not archived and pass the
  filter, in database order, each with its identifier; one response holds at most
  \<open>page_size\<close> of them, starting at the cursor.
\<close>

definition queryAll :: "notion_db \<Rightarrow> (page \<Rightarrow> bool) \<Rightarrow> (nat \<times> page) list" where
  "queryAll db flt = filter (\<lambda>(i, p). \<not> archived p \<and> flt p) (zip [0..<length db] db)"

text \<open>\<open>notion.pages.update\<close> on one page; \<open>notion.pages.create\<close> appends the new page.\<close>

definition pagesUpdate :: "nat \<Rightarrow> (page \<Rightarrow> page) \<Rightarrow> notion_db \<Rightarrow> notion_db" where
  "pagesUpdate i f db = (if i < length db then db[i := f (db ! i)] else db)"

definition pagesCreate :: "page \<Rightarrow> notion_db \<Rightarrow> notion_db" where
  "pagesCreate p db = db @ [p]"

text \<open>\<open>dateOrNull(iso)\<close>: a falsy string clears the date property.\<close>

definition dateOrNull :: "isostr option \<Rightarrow> isostr option" where
  "dateOrNull s = (if truthy s then s else None)"

definition toMultiSelect :: "string list option \<Rightarrow> string list" where
  "toMultiSelect ts = take 50 (case ts of None \<Rightarrow> [] | Some l \<Rightarrow> l)"

definition richText :: "string option \<Rightarrow> string" where
  "richText x = (case x of None \<Rightarrow> [] | Some t \<Rightarrow> t)"

text \<open>
  \<open>listAllNotionRows\<close>: the loop asks for 100 pages at a time and follows the cursor until
  a response has no more; pages without a numeric \<open>Raindrop ID\<close> are left out.
\<close>

definition rowOfPage :: "nat \<times> page \<Rightarrow> NotionRow list" where
  "rowOfPage ip =
     (case p_RaindropID (snd ip) of
        None \<Rightarrow> []
      | Some idNum \<Rightarrow>
          [\<lparr>rowPageId = fst ip, raindropId = idNum, rowLocked = p_Lock (snd ip),
            deletedFlag = p_Deleted (snd ip), deleteDetectedAt = p_DeleteDetectedAt (snd ip)\<rparr>])"

function listRowsLoop :: "(nat \<times> page) list \<Rightarrow> NotionRow list \<Rightarrow> NotionRow list" where
  "listRowsLoop pending rows =
     (let rows' = rows @ concat (map rowOfPage (take 100 pending))
      in if drop 100 pending = [] then rows' else listRowsLoop (drop 100 pending) rows')"
  by pat_completeness auto
termination
  by (relation "measure (\<lambda>(pending, rows). length pending)") auto

declare listRowsLoop.simps [simp del]

definition listAllNotionRows :: "notion_db \<Rightarrow> NotionRow list" where
  "listAllNotionRows db = listRowsLoop (queryAll db (\<lambda>_. True)) []"

text \<open>The four targeted writes of the reconciliation; \<open>now\<close> is what \<open>new Date()\<close> reads inside
  the call.\<close>

definition updateCollectionOnly :: "int \<Rightarrow> nat \<Rightarrow> string option \<Rightarrow> notion_db \<Rightarrow> notion_db" where
  "updateCollectionOnly now pid ttl db =
     pagesUpdate pid (\<lambda>p. p\<lparr>p_Collection := (if truthyStr ttl then richText ttl else []),
                             p_SyncedAt := dateOrNull (Some (Instant now))\<rparr>) db"

definition markDeleteDetected :: "int \<Rightarrow> nat \<Rightarrow> isostr \<Rightarrow> bool \<Rightarrow> notion_db \<Rightarrow> notion_db" where
  "markDeleteDetected now pid whenIso setArchived db =
     pagesUpdate pid (\<lambda>p. p\<lparr>p_Deleted := True,
                             p_DeleteDetectedAt := dateOrNull (Some whenIso),
                             p_SyncedAt := dateOrNull (Some (Instant now)),
                             p_Status := (if setArchived then Some ''Archived'' else p_Status p)\<rparr>) db"

definition clearDeleteFlags :: "int \<Rightarrow> nat \<Rightarrow> notion_db \<Rightarrow> notion_db" where
  "clearDeleteFlags now pid db =
     pagesUpdate pid (\<lambda>p. p\<lparr>p_Deleted := False,
                             p_DeleteDetectedAt := None,
                             p_SyncedAt := dateOrNull (Some (Instant now))\<rparr>) db"

definition archivePage :: "nat \<Rightarrow> notion_db \<Rightarrow> notion_db" where
  "archivePage pid db = pagesUpdate pid (\<lambda>p. p\<lparr>archived := True\<rparr>) db"

text \<open>
  \<open>getPagesByRaindropIds\<close>: the identifiers are looked up 25 at a time; each query returns
  at most 100 matching pages and is not continued; a later page with the same identifier
  overwrites an earlier one in the result map.
\<close>

definition NOTION_QUERY_CHUNK :: nat where
  "NOTION_QUERY_CHUNK = 25"

definition foundOfPage :: "(int \<rightharpoonup> NotionFound) \<Rightarrow> nat \<times> page \<Rightarrow> (int \<rightharpoonup> NotionFound)" where
  "foundOfPage out ip =
     (case p_RaindropID (snd ip) of
        None \<Rightarrow> out
      | Some idProp \<Rightarrow>
          out(idProp \<mapsto> \<lparr>pageId = fst ip,
                          raindropLastUpdate = p_RaindropLastUpdate (snd ip),
                          locked = p_Lock (snd ip)\<rparr>))"

definition queryChunk :: "notion_db \<Rightarrow> int list \<Rightarrow> (nat \<times> page) list" where
  "queryChunk db chunk =
     take 100 (queryAll db (\<lambda>p. case p_RaindropID p of None \<Rightarrow> False | Some n \<Rightarrow> n \<in> set chunk))"

function getPagesLoop ::
  "notion_db \<Rightarrow> int list \<Rightarrow> nat \<Rightarrow> (int \<rightharpoonup> NotionFound) \<Rightarrow> (int \<rightharpoonup> NotionFound)" where
  "getPagesLoop db ids i out =
     (if i < length ids
      then getPagesLoop db ids (i + NOTION_QUERY_CHUNK)
             (foldl foundOfPage out (queryChunk db (take NOTION_QUERY_CHUNK (drop i ids))))
      else out)"
  by pat_completeness auto
termination
  by (relation "measure (\<lambda>(db, ids, i, out). length ids - i)") (auto simp: NOTION_QUERY_CHUNK_def)

declare getPagesLoop.simps [simp del]

definition getPagesByRaindropIds :: "notion_db \<Rightarrow> int list \<Rightarrow> (int \<rightharpoonup> NotionFound)" where
  "getPagesByRaindropIds db ids = getPagesLoop db ids 0 Map.empty"

text \<open>\<open>createFromRaindrop\<close> and \<open>updateFromRaindrop\<close>; the update leaves \<open>Status\<close>, \<open>Lock\<close>,
  the identifier and the delete-tracking properties as they are.\<close>

definition collTitleOf :: "RaindropItem \<Rightarrow> string option \<Rightarrow> string" where
  "collTitleOf item collectionTitle =
     richText (orStr (orStr (case collection item of None \<Rightarrow> None | Some c \<Rightarrow> coll_title c)
                            collectionTitle) (Some []))"

definition createFromRaindrop :: "int \<Rightarrow> RaindropItem \<Rightarrow> string option \<Rightarrow> notion_db \<Rightarrow> notion_db" where
  "createFromRaindrop now item collectionTitle db =
     pagesCreate
       \<lparr>archived = False,
        p_Title = (if title item \<noteq> [] then title item else ''Untitled''),
        p_URL = link item,
        p_Tags = toMultiSelect (tags item),
        p_Excerpt = (if truthyStr (excerpt item) then richText (excerpt item) else []),
        p_Notes = (if truthyStr (item_note item) then richText (item_note item) else []),
        p_Site = (if truthyStr (domain item) then richText (domain item) else []),
        p_Collection = collTitleOf item collectionTitle,
        p_Created = Some (created item),
        p_RaindropID = Some (item_id item),
        p_Status = Some ''New'',
        p_RaindropLastUpdate = dateOrNull (itemLast item),
        p_SyncedAt = dateOrNull (Some (Instant now)),
        p_Lock = False,
        p_Deleted = False,
        p_DeleteDetectedAt = None\<rparr> db"

definition updateFromRaindrop ::
  "int \<Rightarrow> nat \<Rightarrow> RaindropItem \<Rightarrow> string option \<Rightarrow> notion_db \<Rightarrow> notion_db" where
  "updateFromRaindrop now pid item collectionTitle db =
     pagesUpdate pid
       (\<lambda>p. p\<lparr>p_Title := (if title item \<noteq> [] then title item else ''Untitled''),
              p_URL := link item,
              p_Tags := toMultiSelect (tags item),
              p_Excerpt := (if truthyStr (excerpt item) then richText (excerpt item) else []),
              p_Notes := (if truthyStr (item_note item) then richText (item_note item) else []),
              p_Site := (if truthyStr (domain item) then richText (domain item) else []),
              p_Collection := collTitleOf item collectionTitle,
              p_Created := Some (created item),
              p_RaindropLastUpdate := dateOrNull (itemLast item),
              p_SyncedAt := dateOrNull (Some (Instant now))\<rparr>) db"


section \<open>The Source: lib/raindrop.ts over a model of the HTTP service\<close>

text \<open>
  What a \<open>fetch\<close> gives: the promise rejects (no connection, or a body that is not JSON),
  or there is a response with a status and a decoded body. The Source is fixed for the
  length of one invocation: \<open>world\<close> maps each request to its outcome.
  A search filter \<open>lastUpdate:>YYYY-MM-DD\<close> or \<open>created:>YYYY-MM-DD\<close> carries its date as the
  number of the UTC day.

  The clock moves while an invocation runs. \<open>clock\<close> is the reading \<open>new Date()\<close> takes
  when the sync handler computes its window. Every later reading is taken while one page is
  being handled, at one of the call sites below, and each site is reached at most once per
  page in one invocation; \<open>wallClock site pid\<close> is that reading. Nothing is assumed about how
  the readings relate to each other.
\<close>

datatype clocksite =
    AtFirstDetection
  | AtHoursSince
  | InUpdateCollectionOnly
  | InMarkDeleteDetected
  | InClearDeleteFlags
  | InCreateFromRaindrop
  | InUpdateFromRaindrop

datatype 'a http = Rejected | Response nat 'a

datatype search = LastUpdateAfter int | CreatedAfter int

record detail_item =
  d_removed :: "bool option"
  d_collectionId :: "int option"
  d_collection :: "collection_ref option"
  d_lastUpdate :: "isostr option"

record world =
  clock :: int
  wallClock :: "clocksite \<Rightarrow> nat \<Rightarrow> int"
  getRaindrops :: "string \<Rightarrow> search option \<Rightarrow> int \<Rightarrow> nat \<Rightarrow> RaindropItem list http"
  getCollection :: "string \<Rightarrow> string option http"
  getRaindrop :: "int \<Rightarrow> detail_item option http"

record procenv =
  RAINDROP_ACCESS_TOKEN :: "string option"
  RAINDROP_COLLECTION_ID :: "string option"
  LOOKBACK_HOURS :: "string option"
  OVERLAP_MINUTES :: "string option"
  PER_PAGE :: "string option"
  MAX_PAGES :: "string option"
  CONSECUTIVE_HITS_STOP :: "string option"
  DELETE_MODE :: "string option"
  DELETE_GRACE_HOURS :: "string option"

datatype error =
    MissingCollectionId
  | MissingToken
  | FetchFailed nat
  | SearchFailed nat
  | FetchRejected
  | RangeError

definition ok :: "nat \<Rightarrow> bool" where
  "ok status = (200 \<le> status \<and> status \<le> 299)"

definition getRaindropToken :: "procenv \<Rightarrow> error + string" where
  "getRaindropToken e =
     (case RAINDROP_ACCESS_TOKEN e of
        None \<Rightarrow> Inl MissingToken
      | Some t \<Rightarrow> if t = [] then Inl MissingToken else Inr t)"

definition fetchRecentRaindrops ::
  "world \<Rightarrow> procenv \<Rightarrow> string \<Rightarrow> int \<Rightarrow> nat \<Rightarrow> error + RaindropItem list" where
  "fetchRecentRaindrops w e coll perPage pg =
     (case getRaindropToken e of
        Inl err \<Rightarrow> Inl err
      | Inr _ \<Rightarrow>
          (case getRaindrops w coll None perPage pg of
             Rejected \<Rightarrow> Inl FetchRejected
           | Response status items \<Rightarrow> if \<not> ok status then Inl (FetchFailed status) else Inr items))"

definition fetchRaindropsBySearch ::
  "world \<Rightarrow> procenv \<Rightarrow> string \<Rightarrow> search \<Rightarrow> int \<Rightarrow> nat \<Rightarrow> error + RaindropItem list" where
  "fetchRaindropsBySearch w e coll q perPage pg =
     (case getRaindropToken e of
        Inl err \<Rightarrow> Inl err
      | Inr _ \<Rightarrow>
          (case getRaindrops w coll (Some q) perPage pg of
             Rejected \<Rightarrow> Inl FetchRejected
           | Response status items \<Rightarrow> if \<not> ok status then Inl (SearchFailed status) else Inr items))"

text \<open>
  \<open>getCollectionTitleById\<close>. Its module-level cache only spares the request for a title it
  has already obtained; against a Source that is fixed during the invocation the answer is
  the one the request gives, so the cache is not carried in the model.
\<close>

definition getCollectionTitleById :: "world \<Rightarrow> procenv \<Rightarrow> string \<Rightarrow> error + string option" where
  "getCollectionTitleById w e key =
     (case getRaindropToken e of
        Inl err \<Rightarrow> Inl err
      | Inr _ \<Rightarrow>
          (case getCollection w key of
             Rejected \<Rightarrow> Inl FetchRejected
           | Response status ttl \<Rightarrow> if \<not> ok status then Inr None else Inr ttl))"

text \<open>\<open>p.catch(() => undefined)\<close>.\<close>

definition catchUndefined :: "error + 'a option \<Rightarrow> 'a option" where
  "catchUndefined r = (case r of Inl _ \<Rightarrow> None | Inr v \<Rightarrow> v)"

definition fetchRaindropDetail :: "world \<Rightarrow> procenv \<Rightarrow> int \<Rightarrow> error + RaindropDetail" where
  "fetchRaindropDetail w e n =
     (case getRaindropToken e of
        Inl err \<Rightarrow> Inl err
      | Inr _ \<Rightarrow>
          (case getRaindrop w n of
             Rejected \<Rightarrow> Inl FetchRejected
           | Response status body \<Rightarrow>
               if status = 404 then
                 Inr \<lparr>exists = False, removed = None, collectionId = None, detailLastUpdate = None\<rparr>
               else if \<not> ok status then
                 Inr \<lparr>exists = False, removed = None, collectionId = None, detailLastUpdate = None\<rparr>
               else
                 (case body of
                    None \<Rightarrow>
                      Inr \<lparr>exists = False, removed = None, collectionId = None,
                           detailLastUpdate = None\<rparr>
                  | Some item \<Rightarrow>
                      Inr \<lparr>exists = True,
                           removed = Some (d_removed item = Some True),
                           collectionId =
                             (case d_collectionId item of
                                Some c \<Rightarrow> Some c
                              | None \<Rightarrow> map_option coll_id (d_collection item)),
                           detailLastUpdate = d_lastUpdate item\<rparr>)))"

text \<open>\<open>String(n)\<close> for an integer.\<close>

fun strNat :: "nat \<Rightarrow> string" where
  "strNat n = (if n < 10 then [char_of (48 + n)] else strNat (n div 10) @ [char_of (48 + n mod 10)])"

definition String :: "int \<Rightarrow> string" where
  "String n = (if n < 0 then CHR ''-'' # strNat (nat (- n)) else strNat (nat n))"


declare strNat.simps [simp del]

section \<open>The incremental sync (api/sync.ts)\<close>

text \<open>
  A JavaScript \<open>Map\<close> keeps its keys in the order of their first insertion; \<open>set\<close> on a key
  that is present replaces the value where it stands.
\<close>

fun mapSet :: "int \<Rightarrow> 'v \<Rightarrow> (int \<times> 'v) list \<Rightarrow> (int \<times> 'v) list" where
  "mapSet k v [] = [(k, v)]"
| "mapSet k v (kv # m) = (if fst kv = k then (k, v) # m else kv # mapSet k v m)"

record request =
  q_limit :: qparam
  q_dryRun :: qparam

text \<open>The constants the handler computes before its first scan.\<close>

record knobs =
  collId :: string
  limitQP :: int
  dryRun :: bool
  perPage :: int
  maxPages :: int
  hitsStop :: int
  since :: int
  sinceDateOnly :: int
  perPageA :: int
  defaultCollectionTitle :: "string option"

record passA =
  passAItems :: "(int \<times> RaindropItem) list"
  consecutiveExisting :: int
  pagesFetchedA :: nat
  stopReasonA :: "string option"

text \<open>\<open>new Date(it.created) < since\<close>: false for a date that does not parse.\<close>

definition createdOld :: "knobs \<Rightarrow> RaindropItem \<Rightarrow> bool" where
  "createdOld k it = (case getTime (created it) of None \<Rightarrow> False | Some t \<Rightarrow> t < since k)"

text \<open>The inner loop of pass A over one page; it ends early when it sets the stop reason.\<close>

fun scanPageA ::
  "knobs \<Rightarrow> (int \<rightharpoonup> NotionFound) \<Rightarrow> RaindropItem list \<Rightarrow> passA \<Rightarrow> passA" where
  "scanPageA k existingMap [] st = st"
| "scanPageA k existingMap (it # rest) st =
     (let ce = (if existingMap (item_id it) \<noteq> None then consecutiveExisting st + 1 else 0);
          st1 = st\<lparr>consecutiveExisting := ce\<rparr>;
          st2 = (if \<not> createdOld k it
                 then st1\<lparr>passAItems := mapSet (item_id it) it (passAItems st1)\<rparr> else st1)
      in if createdOld k it \<and> ce \<ge> hitsStop k
         then st2\<lparr>stopReasonA := Some ''time-window-and-consecutive-existing''\<rparr>
         else scanPageA k existingMap rest st2)"

text \<open>
  One turn of the page loop of pass A: the state after the page, and whether the loop is
  left (\<open>break\<close>).
\<close>

definition passAPage ::
  "world \<Rightarrow> procenv \<Rightarrow> knobs \<Rightarrow> notion_db \<Rightarrow> nat \<Rightarrow> passA \<Rightarrow> error + bool \<times> passA" where
  "passAPage w e k d pg st =
     (case fetchRecentRaindrops w e (collId k) (perPageA k) pg of
        Inl err \<Rightarrow> Inl err
      | Inr pageItems \<Rightarrow>
          (let st1 = st\<lparr>pagesFetchedA := pagesFetchedA st + 1\<rparr> in
           if pageItems = [] then Inr (True, st1\<lparr>stopReasonA := Some ''no-more-items''\<rparr>)
           else
             (let existingMap = getPagesByRaindropIds d (map item_id pageItems);
                  st2 = scanPageA k existingMap pageItems st1
              in if stopReasonA st2 \<noteq> None then Inr (True, st2)
                 else if int (length pageItems) < perPageA k
                 then Inr (True, st2\<lparr>stopReasonA := Some ''short-final-page''\<rparr>)
                 else if limitQP k \<noteq> 0 \<and> limitQP k \<le> perPage k
                 then Inr (True, st2\<lparr>stopReasonA := Some ''debug-limit''\<rparr>)
                 else Inr (False, st2))))"

function passALoop ::
  "world \<Rightarrow> procenv \<Rightarrow> knobs \<Rightarrow> notion_db \<Rightarrow> nat \<Rightarrow> passA \<Rightarrow> error + passA" where
  "passALoop w e k d pg st =
     (if int pg < maxPages k then
        (case passAPage w e k d pg st of
           Inl err \<Rightarrow> Inl err
         | Inr (stop, st') \<Rightarrow> if stop then Inr st' else passALoop w e k d (pg + 1) st')
      else Inr st)"
  by pat_completeness auto
termination
  by (relation "measure (\<lambda>(w, e, k, d, pg, st). nat (maxPages k - int pg))") auto

declare passALoop.simps [simp del]

text \<open>One turn of a search loop of pass B; both searches write into the same map and page
  counter.\<close>

definition passBPage ::
  "world \<Rightarrow> procenv \<Rightarrow> knobs \<Rightarrow> search \<Rightarrow> nat \<Rightarrow> (int \<times> RaindropItem) list \<times> nat
     \<Rightarrow> error + bool \<times> (int \<times> RaindropItem) list \<times> nat" where
  "passBPage w e k q pg acc =
     (case fetchRaindropsBySearch w e (collId k) q (perPage k) pg of
        Inl err \<Rightarrow> Inl err
      | Inr pageItems \<Rightarrow>
          (let fetched = snd acc + 1 in
           if pageItems = [] then Inr (True, fst acc, fetched)
           else
             (let items = foldl (\<lambda>m it. mapSet (item_id it) it m) (fst acc) pageItems
              in Inr (int (length pageItems) < perPage k, items, fetched))))"

function passBLoop ::
  "world \<Rightarrow> procenv \<Rightarrow> knobs \<Rightarrow> search \<Rightarrow> nat \<Rightarrow> (int \<times> RaindropItem) list \<times> nat
     \<Rightarrow> error + (int \<times> RaindropItem) list \<times> nat" where
  "passBLoop w e k q pg acc =
     (if int pg < maxPages k then
        (case passBPage w e k q pg acc of
           Inl err \<Rightarrow> Inl err
         | Inr (stop, acc') \<Rightarrow> if stop then Inr acc' else passBLoop w e k q (pg + 1) acc')
      else Inr acc)"
  by pat_completeness auto
termination
  by (relation "measure (\<lambda>(w, e, k, q, pg, acc). nat (maxPages k - int pg))") auto

declare passBLoop.simps [simp del]

record upsert =
  db :: notion_db
  createdCount :: nat
  updatedCount :: nat
  createdIds :: "int list"
  updatedIds :: "int list"
  toCreatePreview :: "int list"
  toUpdatePreview :: "int list"
  skippedLocked :: "int list"
  alreadyExists :: "int list"

text \<open>
  The title of the item's collection. \<open>normalizeItems\<close> keeps no \<open>collectionId\<close> field, so
  the key is \<open>item.collection?.$id\<close> or else the configured collection; a key of \<open>0\<close> is
  falsy and no title is asked for. This lookup is not guarded by a \<open>catch\<close>.
\<close>

definition resolveTitle :: "world \<Rightarrow> procenv \<Rightarrow> knobs \<Rightarrow> RaindropItem \<Rightarrow> error + string option" where
  "resolveTitle w e k item =
     (case (case collection item of
              Some c \<Rightarrow> if coll_id c = 0 then Inr None
                        else getCollectionTitleById w e (String (coll_id c))
            | None \<Rightarrow> if collId k = [] then Inr None
                      else getCollectionTitleById w e (collId k)) of
        Inl err \<Rightarrow> Inl err
      | Inr None \<Rightarrow> Inr (defaultCollectionTitle k)
      | Inr (Some t) \<Rightarrow> Inr (Some t))"

text \<open>The body of the decision loop for one candidate.\<close>

definition upsertStep ::
  "world \<Rightarrow> procenv \<Rightarrow> knobs \<Rightarrow> (int \<rightharpoonup> NotionFound) \<Rightarrow> RaindropItem \<Rightarrow> upsert
     \<Rightarrow> error + upsert" where
  "upsertStep w e k existingMapAll item st =
     (case resolveTitle w e k item of
        Inl err \<Rightarrow> Inl err
      | Inr collectionTitle \<Rightarrow>
          (case existingMapAll (item_id item) of
             None \<Rightarrow>
               if dryRun k then Inr (st\<lparr>toCreatePreview := toCreatePreview st @ [item_id item]\<rparr>)
               else Inr (st\<lparr>db := createFromRaindrop (wallClock w InCreateFromRaindrop (length (db st))) item
                                     collectionTitle (db st),
                             createdCount := createdCount st + 1,
                             createdIds := createdIds st @ [item_id item]\<rparr>)
           | Some found \<Rightarrow>
               if locked found then
                 Inr (st\<lparr>skippedLocked := skippedLocked st @ [item_id item],
                          alreadyExists := alreadyExists st @ [item_id item]\<rparr>)
               else if newerThan (itemLast item) (raindropLastUpdate found) then
                 (if dryRun k then
                    Inr (st\<lparr>toUpdatePreview := toUpdatePreview st @ [item_id item]\<rparr>)
                  else
                    Inr (st\<lparr>db := updateFromRaindrop (wallClock w InUpdateFromRaindrop (pageId found))
                                     (pageId found) item
                                     collectionTitle (db st),
                             updatedCount := updatedCount st + 1,
                             updatedIds := updatedIds st @ [item_id item]\<rparr>))
               else Inr (st\<lparr>alreadyExists := alreadyExists st @ [item_id item]\<rparr>)))"

fun upsertLoop ::
  "world \<Rightarrow> procenv \<Rightarrow> knobs \<Rightarrow> (int \<rightharpoonup> NotionFound) \<Rightarrow> RaindropItem list \<Rightarrow> upsert
     \<Rightarrow> error + upsert" where
  "upsertLoop w e k existingMapAll [] st = Inr st"
| "upsertLoop w e k existingMapAll (item # rest) st =
     (case upsertStep w e k existingMapAll item st of
        Inl err \<Rightarrow> Inl err
      | Inr st' \<Rightarrow> upsertLoop w e k existingMapAll rest st')"

text \<open>
  The handler's constants. \<open>limitQP\<close> is read with the default 50, so it is a number between
  1 and 500 whether or not the request has a \<open>limit\<close>. \<open>isoDateOnly\<close> throws a \<open>RangeError\<close>
  on a date outside the range of \<open>Date\<close>; inside it the date-only string is the UTC day.
\<close>

definition syncKnobs :: "world \<Rightarrow> procenv \<Rightarrow> request \<Rightarrow> error + knobs" where
  "syncKnobs w e req =
     (case RAINDROP_COLLECTION_ID e of
        None \<Rightarrow> Inl MissingCollectionId
      | Some coll \<Rightarrow>
          if coll = [] then Inl MissingCollectionId
          else
            (let lim = toIntInRange (getQP (q_limit req)) 50 1 500;
                 dry = toBool (getQP (q_dryRun req));
                 lookback = envInt (LOOKBACK_HOURS e) 48;
                 overlap = envInt (OVERLAP_MINUTES e) 15;
                 pp = envInt (PER_PAGE e) 50;
                 mp = envInt (MAX_PAGES e) 10;
                 hits = envInt (CONSECUTIVE_HITS_STOP e) 50;
                 snc = clock w - (lookback * 60 + overlap) * 60 * 1000
             in if \<bar>snc\<bar> > 8640000000000000 then Inl RangeError
                else
                  Inr \<lparr>collId = coll, limitQP = lim, dryRun = dry, perPage = pp, maxPages = mp,
                       hitsStop = hits, since = snc, sinceDateOnly = snc div 86400000,
                       perPageA = (if lim \<noteq> 0 \<and> lim < pp then lim else pp),
                       defaultCollectionTitle =
                         catchUndefined (getCollectionTitleById w e coll)\<rparr>))"

text \<open>
  The candidates: the union of both passes, cut to the first \<open>limitQP\<close> entries
  (\<open>slice(0, limitQP || candidates.size)\<close>).
\<close>

definition unionCandidates ::
  "(int \<times> RaindropItem) list \<Rightarrow> (int \<times> RaindropItem) list \<Rightarrow> (int \<times> RaindropItem) list" where
  "unionCandidates a b = foldl (\<lambda>m kv. mapSet (fst kv) (snd kv) m) (foldl (\<lambda>m kv. mapSet (fst kv) (snd kv) m) [] a) b"

definition candidateList :: "knobs \<Rightarrow> (int \<times> RaindropItem) list \<Rightarrow> RaindropItem list" where
  "candidateList k candidates =
     take (nat (if limitQP k \<noteq> 0 then limitQP k else int (length candidates))) (map snd candidates)"

record sync_report =
  rep_dryRun :: bool
  rep_stopReason :: string
  rep_pagesFetchedA :: nat
  rep_candidatesA :: nat
  rep_pagesFetchedB :: nat
  rep_candidatesB :: nat
  rep_unionCandidates :: nat
  rep_created :: nat
  rep_updated :: nat
  rep_createdIds :: "int list option"
  rep_updatedIds :: "int list option"
  rep_toCreatePreview :: "int list option"
  rep_toUpdatePreview :: "int list option"
  rep_skippedLocked :: "int list"
  rep_alreadyExists :: "int list"

definition initPassA :: passA where
  "initPassA = \<lparr>passAItems = [], consecutiveExisting = 0, pagesFetchedA = 0, stopReasonA = None\<rparr>"

definition initUpsert :: "notion_db \<Rightarrow> upsert" where
  "initUpsert d = \<lparr>db = d, createdCount = 0, updatedCount = 0, createdIds = [], updatedIds = [],
                    toCreatePreview = [], toUpdatePreview = [], skippedLocked = [],
                    alreadyExists = []\<rparr>"

text \<open>The candidates of one run: pass A, the two searches of pass B, the union and the cut.\<close>

definition syncCandidates ::
  "world \<Rightarrow> procenv \<Rightarrow> knobs \<Rightarrow> notion_db
     \<Rightarrow> error + (passA \<times> ((int \<times> RaindropItem) list \<times> nat) \<times> RaindropItem list)" where
  "syncCandidates w e k d =
     (case passALoop w e k d 0 initPassA of
        Inl err \<Rightarrow> Inl err
      | Inr a \<Rightarrow>
          (case passBLoop w e k (LastUpdateAfter (sinceDateOnly k)) 0 ([], 0) of
             Inl err \<Rightarrow> Inl err
           | Inr b1 \<Rightarrow>
               (case passBLoop w e k (CreatedAfter (sinceDateOnly k)) 0 b1 of
                  Inl err \<Rightarrow> Inl err
                | Inr b \<Rightarrow>
                    Inr (a, b, candidateList k (unionCandidates (passAItems a) (fst b))))))"

definition syncReport :: "knobs \<Rightarrow> passA \<Rightarrow> (int \<times> RaindropItem) list \<times> nat
     \<Rightarrow> RaindropItem list \<Rightarrow> upsert \<Rightarrow> sync_report" where
  "syncReport k a b cands u =
     \<lparr>rep_dryRun = dryRun k,
      rep_stopReason = (case stopReasonA a of None \<Rightarrow> ''completed'' | Some r \<Rightarrow> r),
      rep_pagesFetchedA = pagesFetchedA a,
      rep_candidatesA = length (passAItems a),
      rep_pagesFetchedB = snd b,
      rep_candidatesB = length (fst b),
      rep_unionCandidates = length cands,
      rep_created = createdCount u,
      rep_updated = updatedCount u,
      rep_createdIds = (if dryRun k then None else Some (createdIds u)),
      rep_updatedIds = (if dryRun k then None else Some (updatedIds u)),
      rep_toCreatePreview = (if dryRun k then Some (toCreatePreview u) else None),
      rep_toUpdatePreview = (if dryRun k then Some (toUpdatePreview u) else None),
      rep_skippedLocked = skippedLocked u,
      rep_alreadyExists = alreadyExists u\<rparr>"

text \<open>
  The handler from its \<open>try\<close> on: the response body of a 200, or the error of a 500, and the
  database as the run leaves it. A run that fails keeps the writes it had made; the model
  returns the error alone.
\<close>

definition syncRun :: "world \<Rightarrow> procenv \<Rightarrow> knobs \<Rightarrow> notion_db \<Rightarrow> error + sync_report \<times> notion_db" where
  "syncRun w e k d =
     (case syncCandidates w e k d of
        Inl err \<Rightarrow> Inl err
      | Inr (a, b, cands) \<Rightarrow>
          (let existingMapAll = getPagesByRaindropIds d (map item_id cands) in
           case upsertLoop w e k existingMapAll cands (initUpsert d) of
             Inl err \<Rightarrow> Inl err
           | Inr u \<Rightarrow> Inr (syncReport k a b cands u, db u)))"

definition syncHandler ::
  "world \<Rightarrow> procenv \<Rightarrow> request \<Rightarrow> notion_db \<Rightarrow> error + sync_report \<times> notion_db" where
  "syncHandler w e req d =
     (case syncKnobs w e req of
        Inl err \<Rightarrow> Inl err
      | Inr k \<Rightarrow> syncRun w e k d)"


section \<open>The nightly reconciliation (api/reconcile.ts)\<close>

text \<open>
  \<open>hoursSince(iso)\<close> is \<open>Infinity\<close> for a falsy string and otherwise the milliseconds since
  the parsed instant divided by \<open>36e5\<close>, \<open>NaN\<close> when the string does not parse. A comparison
  with \<open>NaN\<close> is false.
\<close>

datatype jsnum = NaN | Infinity | Num rat

definition hoursSince :: "int \<Rightarrow> isostr option \<Rightarrow> jsnum" where
  "hoursSince now s =
     (if \<not> truthy s then Infinity
      else (case Option.bind s getTime of
              None \<Rightarrow> NaN
            | Some t \<Rightarrow> Num (of_int (now - t) / 3600000)))"

fun geNum :: "jsnum \<Rightarrow> int \<Rightarrow> bool" where
  "geNum NaN g = False"
| "geNum Infinity g = True"
| "geNum (Num x) g = (x \<ge> of_int g)"

record rknobs =
  r_collId :: string
  r_perPage :: int
  r_maxPages :: int
  r_deleteMode :: string
  r_graceHours :: int
  r_dryRun :: bool

record reconcile =
  r_db :: notion_db
  moved :: "int list"
  deleteDetected :: "int list"
  deleteArchivedNow :: "int list"
  r_skippedLocked :: "int list"
  clearedFlags :: "int list"

definition reconcileKnobs :: "procenv \<Rightarrow> qparam \<Rightarrow> error + rknobs" where
  "reconcileKnobs e q =
     (case RAINDROP_COLLECTION_ID e of
        None \<Rightarrow> Inl MissingCollectionId
      | Some coll \<Rightarrow>
          if coll = [] then Inl MissingCollectionId
          else
            Inr \<lparr>r_collId = coll,
                 r_perPage = envInt (PER_PAGE e) 50,
                 r_maxPages = envInt (MAX_PAGES e) 200,
                 r_deleteMode =
                   toLowerCase (richText (orStr (DELETE_MODE e) (Some ''archive''))),
                 r_graceHours = envInt (DELETE_GRACE_HOURS e) 24,
                 r_dryRun = toBool (orStr (getQP q) (Some ''0''))\<rparr>)"

text \<open>Step 1: every identifier of the collection, page after page; a \<open>Set\<close> as a list
  without repetition.\<close>

definition setAdd :: "int \<Rightarrow> int list \<Rightarrow> int list" where
  "setAdd x xs = (if x \<in> set xs then xs else xs @ [x])"

definition enumPage ::
  "world \<Rightarrow> procenv \<Rightarrow> rknobs \<Rightarrow> nat \<Rightarrow> int list \<times> nat \<Rightarrow> error + bool \<times> int list \<times> nat" where
  "enumPage w e k pg acc =
     (case fetchRecentRaindrops w e (r_collId k) (r_perPage k) pg of
        Inl err \<Rightarrow> Inl err
      | Inr items \<Rightarrow>
          (let fetched = snd acc + 1 in
           if items = [] then Inr (True, fst acc, fetched)
           else
             (let ids = foldl (\<lambda>s it. setAdd (item_id it) s) (fst acc) items
              in Inr (int (length items) < r_perPage k, ids, fetched))))"

function enumLoop ::
  "world \<Rightarrow> procenv \<Rightarrow> rknobs \<Rightarrow> nat \<Rightarrow> int list \<times> nat \<Rightarrow> error + int list \<times> nat" where
  "enumLoop w e k pg acc =
     (if int pg < r_maxPages k then
        (case enumPage w e k pg acc of
           Inl err \<Rightarrow> Inl err
         | Inr (stop, acc') \<Rightarrow> if stop then Inr acc' else enumLoop w e k (pg + 1) acc')
      else Inr acc)"
  by pat_completeness auto
termination
  by (relation "measure (\<lambda>(w, e, k, pg, acc). nat (r_maxPages k - int pg))") auto

declare enumLoop.simps [simp del]

text \<open>
  Step 3 for one row. A write is issued only outside a dry run; the classification lists are
  filled either way. The row is the snapshot taken by \<open>listAllNotionRows\<close> before the loop.
\<close>

definition unlessDry :: "rknobs \<Rightarrow> (notion_db \<Rightarrow> notion_db) \<Rightarrow> notion_db \<Rightarrow> notion_db" where
  "unlessDry k f d = (if r_dryRun k then d else f d)"

definition reconcileRow ::
  "world \<Rightarrow> procenv \<Rightarrow> rknobs \<Rightarrow> int list \<Rightarrow> NotionRow \<Rightarrow> reconcile \<Rightarrow> error + reconcile" where
  "reconcileRow w e k raindropIds row st =
     (if raindropId row \<in> set raindropIds then
        (if deletedFlag row then
           Inr (st\<lparr>r_db := unlessDry k (clearDeleteFlags (wallClock w InClearDeleteFlags (rowPageId row))
                                    (rowPageId row)) (r_db st),
                    clearedFlags := clearedFlags st @ [raindropId row]\<rparr>)
         else Inr st)
      else
        (case fetchRaindropDetail w e (raindropId row) of
           Inl err \<Rightarrow> Inl err
         | Inr detail \<Rightarrow>
             if exists detail \<and> removed detail \<noteq> Some True then
               (let newTitle =
                      (case collectionId detail of
                         None \<Rightarrow> None
                       | Some c \<Rightarrow> if c = 0 then None
                                   else catchUndefined (getCollectionTitleById w e (String c)))
                in if \<not> rowLocked row then
                     (let st1 = st\<lparr>r_db := unlessDry k (updateCollectionOnly
                                                (wallClock w InUpdateCollectionOnly (rowPageId row))
                                                (rowPageId row) newTitle) (r_db st),
                                    moved := moved st @ [raindropId row]\<rparr>
                      in if deletedFlag row then
                           Inr (st1\<lparr>r_db := unlessDry k (clearDeleteFlags
                                                  (wallClock w InClearDeleteFlags (rowPageId row))
                                                  (rowPageId row)) (r_db st1),
                                     clearedFlags := clearedFlags st1 @ [raindropId row]\<rparr>)
                         else Inr st1)
                   else Inr (st\<lparr>r_skippedLocked := r_skippedLocked st @ [raindropId row]\<rparr>))
             else if \<not> deletedFlag row \<or> \<not> truthy (deleteDetectedAt row) then
               Inr (st\<lparr>r_db := unlessDry k (markDeleteDetected
                                      (wallClock w InMarkDeleteDetected (rowPageId row))
                                      (rowPageId row)
                                      (Instant (wallClock w AtFirstDetection (rowPageId row)))
                                      (\<not> rowLocked row)) (r_db st),
                        deleteDetected := deleteDetected st @ [raindropId row]\<rparr>)
             else
               (let ageHours = hoursSince (wallClock w AtHoursSince (rowPageId row))
                                 (deleteDetectedAt row)
                in if geNum ageHours (r_graceHours k) then
                     (if r_deleteMode k = ''archive'' \<and> \<not> rowLocked row then
                        Inr (st\<lparr>r_db := unlessDry k (archivePage (rowPageId row)) (r_db st),
                                 deleteArchivedNow := deleteArchivedNow st @ [raindropId row]\<rparr>)
                      else Inr (st\<lparr>r_skippedLocked := r_skippedLocked st @ [raindropId row]\<rparr>))
                   else Inr (st\<lparr>deleteDetected := deleteDetected st @ [raindropId row]\<rparr>))))"

fun reconcileLoop ::
  "world \<Rightarrow> procenv \<Rightarrow> rknobs \<Rightarrow> int list \<Rightarrow> NotionRow list \<Rightarrow> reconcile \<Rightarrow> error + reconcile" where
  "reconcileLoop w e k raindropIds [] st = Inr st"
| "reconcileLoop w e k raindropIds (row # rest) st =
     (case reconcileRow w e k raindropIds row st of
        Inl err \<Rightarrow> Inl err
      | Inr st' \<Rightarrow> reconcileLoop w e k raindropIds rest st')"

definition initReconcile :: "notion_db \<Rightarrow> reconcile" where
  "initReconcile d = \<lparr>r_db = d, moved = [], deleteDetected = [], deleteArchivedNow = [],
                       r_skippedLocked = [], clearedFlags = []\<rparr>"

text \<open>The handler: the classification lists of a 200 with the database as it is left, or
  the error of a 500.\<close>

definition reconcileRun :: "world \<Rightarrow> procenv \<Rightarrow> rknobs \<Rightarrow> notion_db \<Rightarrow> error + reconcile" where
  "reconcileRun w e k d =
     (case enumLoop w e k 0 ([], 0) of
        Inl err \<Rightarrow> Inl err
      | Inr (raindropIds, pagesFetched) \<Rightarrow>
          reconcileLoop w e k raindropIds (listAllNotionRows d) (initReconcile d))"

definition reconcileHandler :: "world \<Rightarrow> procenv \<Rightarrow> qparam \<Rightarrow> notion_db \<Rightarrow> error + reconcile" where
  "reconcileHandler w e q d =
     (case reconcileKnobs e q of
        Inl err \<Rightarrow> Inl err
      | Inr k \<Rightarrow> reconcileRun w e k d)"

section \<open>Notions used to state the properties\<close>

text \<open>
  A lookup result \<open>f\<close> for the identifier \<open>n\<close> is faithful to the database \<open>d\<close>: it names a
  page of \<open>d\<close> that is not archived, carries \<open>n\<close>, and has the stored timestamp and lock that
  \<open>f\<close> reports.
\<close>
definition goodFound :: "notion_db \<Rightarrow> int \<Rightarrow> NotionFound \<Rightarrow> bool" where
  "goodFound d n f = (pageId f < length d \<and> p_RaindropID (d ! pageId f) = Some n \<and>
      \<not> archived (d ! pageId f) \<and> raindropLastUpdate f = p_RaindropLastUpdate (d ! pageId f) \<and>
      locked f = p_Lock (d ! pageId f))"

text \<open>The decision loop updates for the item: its row is found, unlocked and older.\<close>
definition isUpdate :: "(int \<rightharpoonup> NotionFound) \<Rightarrow> RaindropItem \<Rightarrow> bool" where
  "isUpdate m it = (case m (item_id it) of None \<Rightarrow> False
      | Some f \<Rightarrow> \<not> locked f \<and> newerThan (itemLast it) (raindropLastUpdate f))"

text \<open>A candidate map is well formed: its keys are distinct and each is the identifier of
  its item.\<close>
definition wfMap :: "(int \<times> RaindropItem) list \<Rightarrow> bool" where
  "wfMap m = (distinct (map fst m) \<and> (\<forall>kv \<in> set m. item_id (snd kv) = fst kv))"


text \<open>The text a moved row's collection is set to: the title the Source answers for the
  collection the detail names, and the empty text when the detail names none, the request
  fails, or the answer carries no title.\<close>
definition titleOfMoved :: "world \<Rightarrow> RaindropDetail \<Rightarrow> string" where
  "titleOfMoved w det =
     (case collectionId det of
        None \<Rightarrow> []
      | Some c \<Rightarrow>
          if c = 0 then []
          else (case getCollection w (String c) of
                  Rejected \<Rightarrow> []
                | Response status ttl \<Rightarrow> if ok status then richText ttl else []))"

subsection \<open>Concrete inputs for the worked instances\<close>

definition demoItem :: "int \<Rightarrow> isostr \<Rightarrow> isostr option \<Rightarrow> RaindropItem" where
  "demoItem n c u = \<lparr>item_id = n, title = ''t'', link = ''l'', excerpt = None, item_note = None,
     tags = None, created = c, lastUpdate = u, domain = None, collection = None\<rparr>"

definition demoPage :: "int \<Rightarrow> isostr option \<Rightarrow> bool \<Rightarrow> page" where
  "demoPage n stored lck = \<lparr>archived = False, p_Title = ''t'', p_URL = ''l'', p_Tags = [],
     p_Excerpt = [], p_Notes = [], p_Site = [], p_Collection = [], p_Created = None,
     p_RaindropID = Some n, p_Status = Some ''New'', p_RaindropLastUpdate = stored,
     p_SyncedAt = None, p_Lock = lck, p_Deleted = False, p_DeleteDetectedAt = None\<rparr>"

definition demoWorld :: "int \<Rightarrow> RaindropItem list \<Rightarrow> detail_item option http \<Rightarrow> world" where
  "demoWorld now items detail = \<lparr>clock = now, wallClock = (\<lambda>site pid. now),
     getRaindrops = (\<lambda>coll q pp pg. Response 200 (take (nat pp) (drop (pg * nat pp) items))),
     getCollection = (\<lambda>key. Response 200 (Some ''Inbox'')),
     getRaindrop = (\<lambda>n. detail)\<rparr>"

definition demoEnv :: procenv where
  "demoEnv = \<lparr>RAINDROP_ACCESS_TOKEN = Some ''tok'', RAINDROP_COLLECTION_ID = Some ''7'',
     LOOKBACK_HOURS = None, OVERLAP_MINUTES = None, PER_PAGE = None, MAX_PAGES = None,
     CONSECUTIVE_HITS_STOP = None, DELETE_MODE = None, DELETE_GRACE_HOURS = None\<rparr>"

definition demoKnobs :: "bool \<Rightarrow> knobs" where
  "demoKnobs dry = \<lparr>collId = ''7'', limitQP = 50, dryRun = dry, perPage = 50, maxPages = 10,
     hitsStop = 50, since = 0, sinceDateOnly = 0, perPageA = 50,
     defaultCollectionTitle = Some ''Inbox''\<rparr>"

definition demoRKnobs :: "bool \<Rightarrow> rknobs" where
  "demoRKnobs dry = \<lparr>r_collId = ''7'', r_perPage = 50, r_maxPages = 200,
     r_deleteMode = ''archive'', r_graceHours = 24, r_dryRun = dry\<rparr>"

definition rowAt :: "notion_db \<Rightarrow> nat \<Rightarrow> int \<Rightarrow> NotionRow" where
  "rowAt d j n = \<lparr>rowPageId = j, raindropId = n, rowLocked = p_Lock (d ! j),
     deletedFlag = p_Deleted (d ! j), deleteDetectedAt = p_DeleteDetectedAt (d ! j)\<rparr>"

definition listsGrow :: "reconcile \<Rightarrow> reconcile \<Rightarrow> bool" where
  "listsGrow s t = (set (moved s) \<subseteq> set (moved t) \<and> set (deleteDetected s) \<subseteq> set (deleteDetected t)
     \<and> set (deleteArchivedNow s) \<subseteq> set (deleteArchivedNow t)
     \<and> set (r_skippedLocked s) \<subseteq> set (r_skippedLocked t)
     \<and> set (clearedFlags s) \<subseteq> set (clearedFlags t))"

definition lockFrame :: "page \<Rightarrow> page \<Rightarrow> bool" where
  "lockFrame p q = (q = p\<lparr>p_Deleted := p_Deleted q, p_DeleteDetectedAt := p_DeleteDetectedAt q,
      p_SyncedAt := p_SyncedAt q\<rparr>)"

definition sameOutcome :: "upsert \<Rightarrow> upsert \<Rightarrow> bool" where
  "sameOutcome sd sr = (toCreatePreview sd = createdIds sr \<and> toUpdatePreview sd = updatedIds sr
     \<and> skippedLocked sd = skippedLocked sr \<and> alreadyExists sd = alreadyExists sr)"

definition sameClassification :: "sync_report \<Rightarrow> sync_report \<Rightarrow> bool" where
  "sameClassification repd repr =
     (rep_toCreatePreview repd = rep_createdIds repr
      \<and> rep_toUpdatePreview repd = rep_updatedIds repr
      \<and> rep_skippedLocked repd = rep_skippedLocked repr
      \<and> rep_alreadyExists repd = rep_alreadyExists repr
      \<and> rep_unionCandidates repd = rep_unionCandidates repr
      \<and> rep_stopReason repd = rep_stopReason repr
      \<and> rep_pagesFetchedA repd = rep_pagesFetchedA repr
      \<and> rep_candidatesA repd = rep_candidatesA repr
      \<and> rep_pagesFetchedB repd = rep_pagesFetchedB repr
      \<and> rep_candidatesB repd = rep_candidatesB repr)"

definition sameLists :: "reconcile \<Rightarrow> reconcile \<Rightarrow> bool" where
  "sameLists td tr =
     (moved td = moved tr \<and> deleteDetected td = deleteDetected tr
      \<and> deleteArchivedNow td = deleteArchivedNow tr
      \<and> r_skippedLocked td = r_skippedLocked tr
      \<and> clearedFlags td = clearedFlags tr)"

definition demoDetail :: "detail_item option http" where
  "demoDetail = Response 200 (Some \<lparr>d_removed = Some False, d_collectionId = Some 9,
     d_collection = None, d_lastUpdate = None\<rparr>)"

definition flaggedPage :: "int \<Rightarrow> bool \<Rightarrow> int \<Rightarrow> page" where
  "flaggedPage n lck t = (demoPage n None lck)\<lparr>p_Deleted := True,
     p_DeleteDetectedAt := Some (Instant t)\<rparr>"

definition detectedPage :: page where
  "detectedPage = (demoPage 1 None False)\<lparr>p_Deleted := True,
     p_DeleteDetectedAt := Some (Instant 3600000), p_SyncedAt := Some (Instant 3600000),
     p_Status := Some ''Archived''\<rparr>"

definition clearedPage :: page where
  "clearedPage = detectedPage\<lparr>p_Deleted := False, p_DeleteDetectedAt := None,
     p_SyncedAt := Some (Instant 18000000)\<rparr>"


definition keysOf :: "(int \<times> RaindropItem) list \<Rightarrow> int set" where
  "keysOf m = fst ` set m"

definition timeWindowStop :: string where
  "timeWindowStop = ''time-window-and-consecutive-existing''"

definition evaluatedIds :: "sync_report \<Rightarrow> int list" where
  "evaluatedIds rep =
     (case rep_createdIds rep of None \<Rightarrow> [] | Some l \<Rightarrow> l)
     @ (case rep_updatedIds rep of None \<Rightarrow> [] | Some l \<Rightarrow> l)
     @ (case rep_toCreatePreview rep of None \<Rightarrow> [] | Some l \<Rightarrow> l)
     @ (case rep_toUpdatePreview rep of None \<Rightarrow> [] | Some l \<Rightarrow> l)
     @ rep_alreadyExists rep"

definition scanStep :: "knobs \<Rightarrow> (int \<rightharpoonup> NotionFound) \<Rightarrow> RaindropItem \<Rightarrow> passA \<Rightarrow> passA" where
  "scanStep k m x st =
     st\<lparr>consecutiveExisting := (if m (item_id x) \<noteq> None then consecutiveExisting st + 1 else 0),
        passAItems := (if \<not> createdOld k x then mapSet (item_id x) x (passAItems st)
                       else passAItems st)\<rparr>"

definition smallPagesEnv :: procenv where
  "smallPagesEnv = demoEnv\<lparr>PER_PAGE := Some ''2'', MAX_PAGES := Some ''1''\<rparr>"

text \<open>The Source identifiers of the rows of a database: of its pages that are not archived
  and carry a numeric identifier, in database order.\<close>
definition rowIds :: "notion_db \<Rightarrow> int list" where
  "rowIds d = concat (map (\<lambda>p. if archived p then []
                               else (case p_RaindropID p of None \<Rightarrow> [] | Some n \<Rightarrow> [n])) d)"

text \<open>Two states of pass A that hold the same items, neither stopped, the second with at
  least as many consecutive hits as the first.\<close>
definition simRel :: "passA \<Rightarrow> passA \<Rightarrow> bool" where
  "simRel s1 s2 = (passAItems s2 = passAItems s1
     \<and> consecutiveExisting s1 \<le> consecutiveExisting s2 \<and> 0 \<le> consecutiveExisting s1
     \<and> stopReasonA s1 = None \<and> stopReasonA s2 = None)"

text \<open>Within one page, nothing inside the window follows an item older than the window.\<close>
fun oldClosed :: "knobs \<Rightarrow> RaindropItem list \<Rightarrow> bool" where
  "oldClosed k [] = True"
| "oldClosed k (x # xs) = ((createdOld k x \<longrightarrow> (\<forall>y \<in> set xs. createdOld k y)) \<and> oldClosed k xs)"

text \<open>The listing is newest first as far as the window can tell: on a page and on every
  later page, nothing inside the window follows an item older than the window
  (\<open>sort=-created\<close>).\<close>
definition windowOrdered :: "world \<Rightarrow> procenv \<Rightarrow> knobs \<Rightarrow> bool" where
  "windowOrdered w e k =
     (\<forall>pg xs. fetchRecentRaindrops w e (collId k) (perPageA k) pg = Inr xs \<longrightarrow>
        oldClosed k xs \<and>
        ((\<exists>x \<in> set xs. createdOld k x) \<longrightarrow>
           (\<forall>pg' ys. pg < pg' \<and> fetchRecentRaindrops w e (collId k) (perPageA k) pg' = Inr ys
              \<longrightarrow> (\<forall>y \<in> set ys. createdOld k y))))"

text \<open>A page that does not end a scan by itself: it is not empty and not shorter than the
  page size asked for.\<close>
definition fullPage :: "int \<Rightarrow> RaindropItem list \<Rightarrow> bool" where
  "fullPage pp xs = (xs \<noteq> [] \<and> pp \<le> int (length xs))"

text \<open>The listing returns the item within the page budget of pass A: on a page below
  \<open>MAX_PAGES\<close> that follows only full pages, and on the first page when the limit does not
  exceed \<open>PER_PAGE\<close> (pass A then reads one page only).\<close>
definition withinListing :: "world \<Rightarrow> procenv \<Rightarrow> knobs \<Rightarrow> nat \<Rightarrow> RaindropItem \<Rightarrow> bool" where
  "withinListing w e k pg item =
     (int pg < maxPages k \<and> (pg = 0 \<or> perPage k < limitQP k)
      \<and> (\<forall>p \<in> set [0..<pg].
            case fetchRecentRaindrops w e (collId k) (perPageA k) p of
              Inl err \<Rightarrow> True
            | Inr xs \<Rightarrow> fullPage (perPageA k) xs)
      \<and> (case fetchRecentRaindrops w e (collId k) (perPageA k) pg of
            Inl err \<Rightarrow> False
          | Inr xs \<Rightarrow> item \<in> set xs))"

text \<open>The search returns the item within the page budget of pass B: on a page below
  \<open>MAX_PAGES\<close> that follows only full pages.\<close>
definition withinSearch :: "world \<Rightarrow> procenv \<Rightarrow> knobs \<Rightarrow> search \<Rightarrow> nat \<Rightarrow> RaindropItem \<Rightarrow> bool" where
  "withinSearch w e k q pg item =
     (int pg < maxPages k
      \<and> (\<forall>p \<in> set [0..<pg].
            case fetchRaindropsBySearch w e (collId k) q (perPage k) p of
              Inl err \<Rightarrow> True
            | Inr xs \<Rightarrow> fullPage (perPage k) xs)
      \<and> (case fetchRaindropsBySearch w e (collId k) q (perPage k) pg of
            Inl err \<Rightarrow> False
          | Inr xs \<Rightarrow> item \<in> set xs))"

text \<open>A Source that answers a search \<open>field:>day\<close> with the listed items whose field lies on a
  later day, and the listing with all of them.\<close>
definition searchWorld :: "int \<Rightarrow> RaindropItem list \<Rightarrow> world" where
  "searchWorld now items = \<lparr>clock = now, wallClock = (\<lambda>site pid. now),
     getRaindrops = (\<lambda>coll q pp pg. Response 200 (take (nat pp) (drop (pg * nat pp)
        (case q of
           None \<Rightarrow> items
         | Some (LastUpdateAfter dy) \<Rightarrow>
             filter (\<lambda>x. case lastUpdate x of Some (Instant t) \<Rightarrow> dy < t div 86400000 | _ \<Rightarrow> False)
               items
         | Some (CreatedAfter dy) \<Rightarrow>
             filter (\<lambda>x. case created x of Instant t \<Rightarrow> dy < t div 86400000 | _ \<Rightarrow> False)
               items)))),
     getCollection = (\<lambda>key. Response 200 (Some ''Inbox'')),
     getRaindrop = (\<lambda>n. Response 404 None)\<rparr>"

text \<open>Three items, newest first: one created a second after the start of the window, one
  created at its very start, and an old one that was modified a day later.\<close>
definition boundaryItems :: "RaindropItem list" where
  "boundaryItems =
     [demoItem 1 (Instant 8643601000) (Some (Instant 8643601000)),
      demoItem 2 (Instant 8643600000) (Some (Instant 8643600000)),
      demoItem 3 (Instant 7000000000) (Some (Instant 8730000000))]"
section \<open>The lookup and the decision loop\<close>


lemma queryAll_mem:
  "ip \<in> set (queryAll d flt) \<Longrightarrow> fst ip < length d \<and> snd ip = d ! fst ip \<and> \<not> archived (snd ip) \<and> flt (snd ip)"
  by (cases ip) (auto simp: queryAll_def in_set_zip)

lemma queryChunk_mem:
  "ip \<in> set (queryChunk d chunk) \<Longrightarrow> fst ip < length d \<and> snd ip = d ! fst ip \<and> \<not> archived (snd ip)"
  unfolding queryChunk_def by (blast dest: in_set_takeD queryAll_mem)

lemma foundOfPage_good:
  assumes "\<forall>n f. out n = Some f \<longrightarrow> goodFound d n f"
    and "fst ip < length d" "snd ip = d ! fst ip" "\<not> archived (snd ip)"
  shows "\<forall>n f. foundOfPage out ip n = Some f \<longrightarrow> goodFound d n f"
  using assms by (auto simp: foundOfPage_def goodFound_def split: option.splits if_splits)

lemma foldl_foundOfPage_good:
  assumes "\<forall>n f. out n = Some f \<longrightarrow> goodFound d n f"
    and "\<forall>ip \<in> set ps. fst ip < length d \<and> snd ip = d ! fst ip \<and> \<not> archived (snd ip)"
  shows "\<forall>n f. foldl foundOfPage out ps n = Some f \<longrightarrow> goodFound d n f"
  using assms
proof (induction ps arbitrary: out)
  case Nil then show ?case by simp
next
  case (Cons ip ps)
  have "\<forall>n f. foundOfPage out ip n = Some f \<longrightarrow> goodFound d n f"
    by (rule foundOfPage_good) (use Cons.prems in auto)
  moreover have "\<forall>ip \<in> set ps. fst ip < length d \<and> snd ip = d ! fst ip \<and> \<not> archived (snd ip)"
    using Cons.prems(2) by auto
  ultimately have "\<forall>n f. foldl foundOfPage (foundOfPage out ip) ps n = Some f \<longrightarrow> goodFound d n f"
    by (rule Cons.IH)
  then show ?case by simp
qed

lemma getPagesLoop_good:
  assumes "\<forall>n f. out n = Some f \<longrightarrow> goodFound d n f"
  shows "\<forall>n f. getPagesLoop d ids i out n = Some f \<longrightarrow> goodFound d n f"
  using assms
proof (induction d ids i out rule: getPagesLoop.induct)
  case (1 d ids i out)
  show ?case
  proof (cases "i < length ids")
    case True
    let ?out = "foldl foundOfPage out (queryChunk d (take NOTION_QUERY_CHUNK (drop i ids)))"
    have "\<forall>n f. ?out n = Some f \<longrightarrow> goodFound d n f"
      by (rule foldl_foundOfPage_good[OF "1.prems"]) (blast dest: queryChunk_mem)
    from "1.IH"[OF True this] True show ?thesis by (subst getPagesLoop.simps) simp
  next
    case False
    then show ?thesis using "1.prems" by (subst getPagesLoop.simps) simp
  qed
qed

lemma getPages_good:
  "getPagesByRaindropIds d ids n = Some f \<Longrightarrow> goodFound d n f"
  using getPagesLoop_good[of Map.empty d ids 0] by (simp add: getPagesByRaindropIds_def)


lemma upsertStep_cases:
  assumes "upsertStep w e k m it st = Inr st'"
  obtains (create) ttl where "m (item_id it) = None" "\<not> dryRun k"
      "st' = st\<lparr>db := createFromRaindrop (wallClock w InCreateFromRaindrop (length (db st))) it ttl (db st),
                 createdCount := createdCount st + 1,
                 createdIds := createdIds st @ [item_id it]\<rparr>"
  | (createPreview) "m (item_id it) = None" "dryRun k"
      "st' = st\<lparr>toCreatePreview := toCreatePreview st @ [item_id it]\<rparr>"
  | (locked) f where "m (item_id it) = Some f" "locked f"
      "st' = st\<lparr>skippedLocked := skippedLocked st @ [item_id it],
                 alreadyExists := alreadyExists st @ [item_id it]\<rparr>"
  | (update) f ttl where "m (item_id it) = Some f" "\<not> locked f"
      "newerThan (itemLast it) (raindropLastUpdate f)" "\<not> dryRun k"
      "st' = st\<lparr>db := updateFromRaindrop (wallClock w InUpdateFromRaindrop (pageId f)) (pageId f) it ttl
                         (db st),
                 updatedCount := updatedCount st + 1,
                 updatedIds := updatedIds st @ [item_id it]\<rparr>"
  | (updatePreview) f where "m (item_id it) = Some f" "\<not> locked f"
      "newerThan (itemLast it) (raindropLastUpdate f)" "dryRun k"
      "st' = st\<lparr>toUpdatePreview := toUpdatePreview st @ [item_id it]\<rparr>"
  | (fresh) f where "m (item_id it) = Some f" "\<not> locked f"
      "\<not> newerThan (itemLast it) (raindropLastUpdate f)"
      "st' = st\<lparr>alreadyExists := alreadyExists st @ [item_id it]\<rparr>"
  using assms unfolding upsertStep_def
  by (auto split: sum.splits option.splits if_splits)

lemma pagesUpdate_nth:
  "pagesUpdate i f d ! j = (if j = i \<and> i < length d then f (d ! i) else d ! j)"
  by (auto simp: pagesUpdate_def)

lemma pagesUpdate_length [simp]: "length (pagesUpdate i f d) = length d"
  by (simp add: pagesUpdate_def)

lemma upsertStep_frame:
  assumes "upsertStep w e k m it st = Inr st'" "j < length (db st)"
    and "\<And>f. m (item_id it) = Some f \<Longrightarrow> isUpdate m it \<Longrightarrow> pageId f \<noteq> j"
  shows "db st' ! j = db st ! j \<and> length (db st) \<le> length (db st')"
  using assms(1)
proof (cases rule: upsertStep_cases)
  case (update f ttl)
  then have "pageId f \<noteq> j" using assms(3)[of f] by (simp add: isUpdate_def)
  then show ?thesis using update by (simp add: updateFromRaindrop_def pagesUpdate_nth)
next
  case (create ttl)
  then show ?thesis using assms(2) by (simp add: createFromRaindrop_def pagesCreate_def nth_append)
qed auto

lemma upsertLoop_frame:
  assumes "upsertLoop w e k m cands st = Inr u" "j < length (db st)"
    and "\<And>it f. it \<in> set cands \<Longrightarrow> m (item_id it) = Some f \<Longrightarrow> isUpdate m it \<Longrightarrow> pageId f \<noteq> j"
  shows "db u ! j = db st ! j \<and> length (db st) \<le> length (db u)"
  using assms
proof (induction cands arbitrary: st)
  case Nil then show ?case by simp
next
  case (Cons it cands)
  from Cons.prems(1) obtain st1 where s1: "upsertStep w e k m it st = Inr st1"
    and l1: "upsertLoop w e k m cands st1 = Inr u"
    by (auto split: sum.splits)
  have f1: "db st1 ! j = db st ! j \<and> length (db st) \<le> length (db st1)"
    by (rule upsertStep_frame[OF s1 Cons.prems(2)]) (use Cons.prems(3) in auto)
  then have "j < length (db st1)" using Cons.prems(2) by simp
  then have "db u ! j = db st1 ! j \<and> length (db st1) \<le> length (db u)"
    by (rule Cons.IH[OF l1]) (use Cons.prems(3) in auto)
  with f1 show ?case by auto
qed

lemma upsertLoop_append:
  "upsertLoop w e k m (xs @ ys) st =
     (case upsertLoop w e k m xs st of Inl err \<Rightarrow> Inl err | Inr st' \<Rightarrow> upsertLoop w e k m ys st')"
  by (induction xs arbitrary: st) (auto split: sum.splits)


lemma upsertLoop_lists:
  "upsertLoop w e k m cands st = Inr u \<Longrightarrow>
   createdIds u = createdIds st @ (if dryRun k then [] else map item_id (filter (\<lambda>it. m (item_id it) = None) cands))
   \<and> toCreatePreview u = toCreatePreview st @ (if dryRun k then map item_id (filter (\<lambda>it. m (item_id it) = None) cands) else [])
   \<and> updatedIds u = updatedIds st @ (if dryRun k then [] else map item_id (filter (isUpdate m) cands))
   \<and> toUpdatePreview u = toUpdatePreview st @ (if dryRun k then map item_id (filter (isUpdate m) cands) else [])
   \<and> createdCount u = createdCount st + (if dryRun k then 0 else length (filter (\<lambda>it. m (item_id it) = None) cands))
   \<and> updatedCount u = updatedCount st + (if dryRun k then 0 else length (filter (isUpdate m) cands))
   \<and> skippedLocked u = skippedLocked st @ map item_id (filter (\<lambda>it. case m (item_id it) of None \<Rightarrow> False | Some f \<Rightarrow> locked f) cands)
   \<and> alreadyExists u = alreadyExists st @ map item_id (filter (\<lambda>it. m (item_id it) \<noteq> None \<and> \<not> isUpdate m it) cands)"
proof (induction cands arbitrary: st)
  case Nil then show ?case by simp
next
  case (Cons it cands)
  from Cons.prems obtain st1 where s1: "upsertStep w e k m it st = Inr st1"
    and l1: "upsertLoop w e k m cands st1 = Inr u" by (auto split: sum.splits)
  from s1 show ?case using Cons.IH[OF l1]
    by (cases rule: upsertStep_cases) (simp_all add: isUpdate_def)
qed


lemma mapSet_keys: "fst ` set (mapSet k v m) = insert k (fst ` set m)"
  by (induction m) auto

lemma mapSet_map_fst: "map fst (mapSet k v m) = (if k \<in> fst ` set m then map fst m else map fst m @ [k])"
  by (induction m) auto

lemma mapSet_values: "set (mapSet k v m) \<subseteq> insert (k, v) (set m)"
  by (induction m) auto

lemma wfMap_mapSet: "wfMap m \<Longrightarrow> wfMap (mapSet (item_id it) it m)"
  unfolding wfMap_def using mapSet_values[of "item_id it" it m]
  by (auto simp: mapSet_map_fst)

lemma wfMap_foldl_items:
  "wfMap m \<Longrightarrow> wfMap (foldl (\<lambda>m it. mapSet (item_id it) it m) m xs)"
  by (induction xs arbitrary: m) (auto simp: wfMap_mapSet)

lemma wfMap_foldl_kv:
  "wfMap m \<Longrightarrow> \<forall>kv \<in> set xs. item_id (snd kv) = fst kv \<Longrightarrow>
   wfMap (foldl (\<lambda>m kv. mapSet (fst kv) (snd kv) m) m xs)"
proof (induction xs arbitrary: m)
  case Nil then show ?case by simp
next
  case (Cons kv xs)
  have "wfMap (mapSet (item_id (snd kv)) (snd kv) m)" using Cons.prems(1) by (rule wfMap_mapSet)
  then have "wfMap (mapSet (fst kv) (snd kv) m)" using Cons.prems(2) by simp
  then show ?case using Cons.IH Cons.prems(2) by simp
qed

lemma wfMap_Nil [simp]: "wfMap []" by (simp add: wfMap_def)

lemma wfMap_union: "wfMap a \<Longrightarrow> wfMap b \<Longrightarrow> wfMap (unionCandidates a b)"
  unfolding unionCandidates_def
  by (intro wfMap_foldl_kv) (auto simp: wfMap_def)

lemma scanPageA_wf: "wfMap (passAItems st) \<Longrightarrow> wfMap (passAItems (scanPageA k m xs st))"
  by (induction xs arbitrary: st) (auto simp: Let_def wfMap_mapSet)

lemma passAPage_wf:
  "passAPage w e k d pg st = Inr (stop, st') \<Longrightarrow> wfMap (passAItems st) \<Longrightarrow> wfMap (passAItems st')"
  unfolding passAPage_def
  by (auto simp: Let_def scanPageA_wf split: sum.splits if_splits)

lemma passALoop_wf:
  "passALoop w e k d pg st = Inr a \<Longrightarrow> wfMap (passAItems st) \<Longrightarrow> wfMap (passAItems a)"
proof (induction w e k d pg st rule: passALoop.induct)
  case (1 w e k d pg st)
  show ?case
  proof (cases "int pg < maxPages k")
    case False
    then show ?thesis using "1.prems" by (simp add: passALoop.simps)
  next
    case True
    from "1.prems"(1) True obtain stop st' where
      pg: "passAPage w e k d pg st = Inr (stop, st')"
      and r: "if stop then a = st' else passALoop w e k d (pg + 1) st' = Inr a"
      by (subst (asm) passALoop.simps) (auto split: sum.splits if_splits)
    have wf: "wfMap (passAItems st')" using pg "1.prems"(2) by (rule passAPage_wf)
    show ?thesis
    proof (cases stop)
      case True then show ?thesis using r wf by simp
    next
      case False
      then show ?thesis using "1.IH"[OF True pg refl False _ wf] r by simp
    qed
  qed
qed

lemma passBPage_wf:
  "passBPage w e k q pg acc = Inr (stop, acc') \<Longrightarrow> wfMap (fst acc) \<Longrightarrow> wfMap (fst acc')"
  unfolding passBPage_def
  by (auto simp: Let_def wfMap_foldl_items split: sum.splits if_splits)

lemma passBLoop_wf:
  "passBLoop w e k q pg acc = Inr b \<Longrightarrow> wfMap (fst acc) \<Longrightarrow> wfMap (fst b)"
proof (induction w e k q pg acc rule: passBLoop.induct)
  case (1 w e k q pg acc)
  show ?case
  proof (cases "int pg < maxPages k")
    case False
    then show ?thesis using "1.prems" by (simp add: passBLoop.simps)
  next
    case True
    from "1.prems"(1) True obtain stop acc' where
      pg: "passBPage w e k q pg acc = Inr (stop, acc')"
      and r: "if stop then b = acc' else passBLoop w e k q (pg + 1) acc' = Inr b"
      by (subst (asm) passBLoop.simps) (auto split: sum.splits if_splits)
    have wf: "wfMap (fst acc')" using pg "1.prems"(2) by (rule passBPage_wf)
    show ?thesis
    proof (cases stop)
      case True then show ?thesis using r wf by simp
    next
      case False
      then show ?thesis using "1.IH"[OF True pg refl False _ wf] r by simp
    qed
  qed
qed

lemma candidateList_ids:
  "wfMap u \<Longrightarrow> map item_id (candidateList k u) =
     take (nat (if limitQP k \<noteq> 0 then limitQP k else int (length u))) (map fst u)"
proof -
  assume "wfMap u"
  then have "map item_id (map snd u) = map fst u" by (auto simp: wfMap_def)
  then show ?thesis by (simp add: candidateList_def take_map[symmetric] del: map_map)
qed

lemma syncCandidates_distinct:
  assumes "syncCandidates w e k d = Inr (a, b, cands)"
  shows "distinct (map item_id cands)"
proof -
  from assms obtain b1 where
    a: "passALoop w e k d 0 initPassA = Inr a"
    and b1: "passBLoop w e k (LastUpdateAfter (sinceDateOnly k)) 0 ([], 0) = Inr b1"
    and b: "passBLoop w e k (CreatedAfter (sinceDateOnly k)) 0 b1 = Inr b"
    and c: "cands = candidateList k (unionCandidates (passAItems a) (fst b))"
    unfolding syncCandidates_def by (auto split: sum.splits)
  have "wfMap (passAItems a)" using a by (rule passALoop_wf) (simp add: initPassA_def)
  moreover have "wfMap (fst b1)" using b1 by (rule passBLoop_wf) simp
  then have "wfMap (fst b)" using b by (rule passBLoop_wf[rotated])
  ultimately have "wfMap (unionCandidates (passAItems a) (fst b))" by (rule wfMap_union)
  then show ?thesis unfolding c by (simp add: candidateList_ids wfMap_def)
qed

lemma syncRun_unfold:
  assumes "syncRun w e k d = Inr (rep, d')" "syncCandidates w e k d = Inr (a, b, cands)"
  obtains u where
    "upsertLoop w e k (getPagesByRaindropIds d (map item_id cands)) cands (initUpsert d) = Inr u"
    "rep = syncReport k a b cands u" "d' = db u"
  using assms unfolding syncRun_def by (auto simp: Let_def split: sum.splits)

lemma distinct_ids_eq:
  "distinct (map item_id cands) \<Longrightarrow> x \<in> set cands \<Longrightarrow> y \<in> set cands \<Longrightarrow>
   item_id x = item_id y \<Longrightarrow> x = y"
  by (meson distinct_map inj_on_def)

lemma same_page_same_id:
  assumes "\<And>n f. m n = Some f \<Longrightarrow> goodFound d n f"
    and "m n = Some f" "m n' = Some f'" "pageId f = pageId f'"
  shows "n = n'"
  using assms(1)[OF assms(2)] assms(1)[OF assms(3)] assms(4) by (simp add: goodFound_def)

lemma newerThan_instants [simp]:
  "newerThan (Some (Instant x)) (Some (Instant y)) = (y < x)"
  by (simp add: newerThan_def)

lemma newerThan_missing:
  "\<not> truthy b \<Longrightarrow> newerThan a b = truthy a"
  by (simp add: newerThan_def)

lemma newerThan_self [simp]: "\<not> newerThan a (dateOrNull a)"
  by (cases a; cases "the a") (auto simp: newerThan_def dateOrNull_def split: option.splits)


lemma upsertLoop_page:
  assumes loop: "upsertLoop w e k m cands (initUpsert d) = Inr u"
    and good: "\<And>n f. m n = Some f \<Longrightarrow> goodFound d n f"
    and dist: "distinct (map item_id cands)"
    and it: "item \<in> set cands" and f: "m (item_id item) = Some found"
  shows "if isUpdate m item \<and> \<not> dryRun k
         then \<exists>ttl. db u ! pageId found =
                updateFromRaindrop (wallClock w InUpdateFromRaindrop (pageId found)) (pageId found)
                  item ttl d ! pageId found
         else db u ! pageId found = d ! pageId found"
proof -
  let ?j = "pageId found"
  have jd: "?j < length d" using good[OF f] by (simp add: goodFound_def)
  have other: "pageId f' \<noteq> ?j"
    if "it' \<in> set cands" "it' \<noteq> item" "m (item_id it') = Some f'" for it' f'
  proof
    assume "pageId f' = ?j"
    then have "item_id it' = item_id item"
      using same_page_same_id[of m d "item_id it'" f' "item_id item" found] good that(3) f by blast
    then show False using distinct_ids_eq[OF dist that(1) it] that(2) by simp
  qed
  from it obtain pre post where sp: "cands = pre @ item # post" by (meson split_list)
  have npre: "item \<notin> set pre" and npost: "item \<notin> set post"
    using dist unfolding sp by (auto simp: image_iff)
  from loop obtain s1 s2 where
    l1: "upsertLoop w e k m pre (initUpsert d) = Inr s1"
    and st: "upsertStep w e k m item s1 = Inr s2"
    and l2: "upsertLoop w e k m post s2 = Inr u"
    unfolding sp upsertLoop_append by (auto split: sum.splits)
  have p1: "db s1 ! ?j = d ! ?j \<and> length d \<le> length (db s1)"
    using upsertLoop_frame[OF l1, of ?j] jd other npre unfolding sp
    by (auto simp: initUpsert_def)
  then have j1: "?j < length (db s1)" using jd by simp
  have len2: "length (db s1) \<le> length (db s2)"
    using st by (cases rule: upsertStep_cases)
      (auto simp: updateFromRaindrop_def createFromRaindrop_def pagesCreate_def)
  then have j2: "?j < length (db s2)" using j1 by simp
  have p3: "db u ! ?j = db s2 ! ?j"
    using upsertLoop_frame[OF l2 j2] other npost unfolding sp by auto
  show ?thesis
  proof (cases "isUpdate m item \<and> \<not> dryRun k")
    case True
    from st True f obtain ttl where
      "db s2 = updateFromRaindrop (wallClock w InUpdateFromRaindrop ?j) ?j item ttl (db s1)"
      by (cases rule: upsertStep_cases) (auto simp: isUpdate_def)
    then have "db s2 ! ?j = updateFromRaindrop (wallClock w InUpdateFromRaindrop ?j) ?j item ttl d ! ?j"
      using p1 j1 jd by (simp add: updateFromRaindrop_def pagesUpdate_nth)
    then show ?thesis using True p3 by auto
  next
    case False
    from st False f have "db s2 = db s1"
      by (cases rule: upsertStep_cases) (auto simp: isUpdate_def)
    then show ?thesis using False p1 p3 by auto
  qed
qed

lemma updatedIds_mem:
  assumes loop: "upsertLoop w e k m cands (initUpsert d) = Inr u"
    and dist: "distinct (map item_id cands)" and it: "item \<in> set cands"
  shows "item_id item \<in> set (updatedIds u) \<longleftrightarrow> isUpdate m item \<and> \<not> dryRun k"
    and "item_id item \<in> set (toUpdatePreview u) \<longleftrightarrow> isUpdate m item \<and> dryRun k"
    and "item_id item \<in> set (alreadyExists u) \<longleftrightarrow> m (item_id item) \<noteq> None \<and> \<not> isUpdate m item"
  using upsertLoop_lists[OF loop] distinct_ids_eq[OF dist _ it] it
  by (auto simp: initUpsert_def)


lemma sum_prod_cases:
  "\<not> isl r \<Longrightarrow> \<exists>x y. r = Inr (x, y)"
  by (cases r) auto

section \<open>The reconciliation loop\<close>

lemma listRowsLoop_eq: "listRowsLoop pending rows = rows @ concat (map rowOfPage pending)"
proof (induction pending rows rule: listRowsLoop.induct)
  case (1 pending rows)
  have split: "concat (map rowOfPage (take 100 pending)) @ concat (map rowOfPage (drop 100 pending))
      = concat (map rowOfPage pending)"
    by (metis append_take_drop_id concat_append map_append)
  show ?case
  proof (cases "drop 100 pending = []")
    case True
    then show ?thesis using split by (subst listRowsLoop.simps) (simp add: Let_def)
  next
    case False
    then show ?thesis using "1.IH"[OF refl False] split
      by (subst listRowsLoop.simps) (simp add: Let_def)
  qed
qed

lemma listAll_eq:
  "listAllNotionRows d = concat (map rowOfPage (queryAll d (\<lambda>_. True)))"
  by (simp add: listAllNotionRows_def listRowsLoop_eq)

lemma queryAll_iff:
  "(j, p) \<in> set (queryAll d flt) \<longleftrightarrow> j < length d \<and> p = d ! j \<and> \<not> archived p \<and> flt p"
proof -
  have "(j, p) \<in> set (zip [0..<length d] d) \<longleftrightarrow> j < length d \<and> p = d ! j"
  proof
    assume "(j, p) \<in> set (zip [0..<length d] d)"
    then show "j < length d \<and> p = d ! j" by (auto simp: in_set_zip)
  next
    assume "j < length d \<and> p = d ! j"
    then have "[0..<length d] ! j = j \<and> d ! j = p \<and> j < length [0..<length d] \<and> j < length d"
      by simp
    then show "(j, p) \<in> set (zip [0..<length d] d)"
      unfolding in_set_zip by (intro exI[of _ j]) simp
  qed
  then show ?thesis by (auto simp: queryAll_def)
qed

lemma listAll_mem:
  "r \<in> set (listAllNotionRows d) \<longleftrightarrow>
     (rowPageId r < length d \<and> \<not> archived (d ! rowPageId r) \<and>
      p_RaindropID (d ! rowPageId r) = Some (raindropId r) \<and> r = rowAt d (rowPageId r) (raindropId r))"
proof
  assume "r \<in> set (listAllNotionRows d)"
  then obtain j p where "(j, p) \<in> set (queryAll d (\<lambda>_. True))" "r \<in> set (rowOfPage (j, p))"
    unfolding listAll_eq by auto
  then show "rowPageId r < length d \<and> \<not> archived (d ! rowPageId r) \<and>
      p_RaindropID (d ! rowPageId r) = Some (raindropId r) \<and> r = rowAt d (rowPageId r) (raindropId r)"
    by (auto simp: queryAll_iff rowOfPage_def rowAt_def split: option.splits)
next
  assume a: "rowPageId r < length d \<and> \<not> archived (d ! rowPageId r) \<and>
      p_RaindropID (d ! rowPageId r) = Some (raindropId r) \<and> r = rowAt d (rowPageId r) (raindropId r)"
  then have "(rowPageId r, d ! rowPageId r) \<in> set (queryAll d (\<lambda>_. True))"
    by (simp add: queryAll_iff)
  moreover have "r \<in> set (rowOfPage (rowPageId r, d ! rowPageId r))"
    using a by (simp add: rowOfPage_def rowAt_def)
  ultimately show "r \<in> set (listAllNotionRows d)"
    unfolding listAll_eq by (metis (no_types, lifting) UN_I image_eqI set_concat set_map)
qed

lemma rowOfPage_pid: "r \<in> set (rowOfPage ip) \<Longrightarrow> rowPageId r = fst ip"
  by (auto simp: rowOfPage_def split: option.splits)

lemma distinct_concat_rows:
  "distinct (map fst ps) \<Longrightarrow> distinct (map rowPageId (concat (map rowOfPage ps)))"
proof (induction ps)
  case Nil then show ?case by simp
next
  case (Cons ip ps)
  have one: "distinct (map rowPageId (rowOfPage ip))"
    by (simp add: rowOfPage_def split: option.splits)
  have "rowPageId r \<noteq> rowPageId r'"
    if "r \<in> set (rowOfPage ip)" "r' \<in> set (concat (map rowOfPage ps))" for r r'
  proof -
    from that(2) obtain ip' where "ip' \<in> set ps" "r' \<in> set (rowOfPage ip')" by auto
    then show ?thesis using that(1) Cons.prems rowOfPage_pid[of r ip] rowOfPage_pid[of r' ip']
      by (auto simp: image_iff)
  qed
  then show ?case using Cons one by auto
qed

lemma listAll_distinct: "distinct (map rowPageId (listAllNotionRows d))"
proof -
  have "distinct (map fst (queryAll d (\<lambda>_. True)))"
    unfolding queryAll_def by (rule distinct_map_filter) simp
  then show ?thesis unfolding listAll_eq by (rule distinct_concat_rows)
qed

lemma reconcileRow_db:
  assumes "reconcileRow w e k ids r s = Inr s'"
  shows "\<exists>f. r_db s' = pagesUpdate (rowPageId r) f (r_db s)"
proof -
  have id: "r_db s = pagesUpdate (rowPageId r) (\<lambda>p. p) (r_db s)"
    by (simp add: pagesUpdate_def)
  have two: "\<exists>h. pagesUpdate i f (pagesUpdate i g x) = pagesUpdate i h x" for i f g x
    by (rule exI[of _ "f \<circ> g"]) (simp add: pagesUpdate_def)
  show ?thesis
    using assms id two unfolding reconcileRow_def unlessDry_def Let_def
      clearDeleteFlags_def updateCollectionOnly_def markDeleteDetected_def archivePage_def
    by (auto split: if_splits sum.splits)
qed

lemma listsGrow_refl [simp]: "listsGrow s s" by (simp add: listsGrow_def)

lemma listsGrow_trans: "listsGrow s t \<Longrightarrow> listsGrow t u \<Longrightarrow> listsGrow s u"
  by (auto simp: listsGrow_def)

lemma reconcileRow_grow:
  "reconcileRow w e k ids r s = Inr s' \<Longrightarrow> listsGrow s s'"
  unfolding reconcileRow_def listsGrow_def Let_def
  by (auto split: if_splits sum.splits)

lemma reconcileLoop_grow:
  "reconcileLoop w e k ids rows s = Inr t \<Longrightarrow> listsGrow s t"
proof (induction rows arbitrary: s)
  case Nil then show ?case by simp
next
  case (Cons r rows)
  from Cons.prems obtain s1 where a: "reconcileRow w e k ids r s = Inr s1"
    and b: "reconcileLoop w e k ids rows s1 = Inr t" by (auto split: sum.splits)
  show ?case using reconcileRow_grow[OF a] Cons.IH[OF b] by (rule listsGrow_trans)
qed

lemma reconcileRow_frame:
  assumes "reconcileRow w e k ids r s = Inr s'"
  shows "length (r_db s') = length (r_db s) \<and> (j \<noteq> rowPageId r \<longrightarrow> r_db s' ! j = r_db s ! j)"
proof -
  from reconcileRow_db[OF assms] obtain f where "r_db s' = pagesUpdate (rowPageId r) f (r_db s)" ..
  then show ?thesis by (simp add: pagesUpdate_nth)
qed

lemma reconcileLoop_frame:
  "reconcileLoop w e k ids rows s = Inr t \<Longrightarrow>
   length (r_db t) = length (r_db s) \<and> (j \<notin> rowPageId ` set rows \<longrightarrow> r_db t ! j = r_db s ! j)"
proof (induction rows arbitrary: s)
  case Nil then show ?case by simp
next
  case (Cons r rows)
  from Cons.prems obtain s1 where a: "reconcileRow w e k ids r s = Inr s1"
    and b: "reconcileLoop w e k ids rows s1 = Inr t" by (auto split: sum.splits)
  show ?case using reconcileRow_frame[OF a, of j] Cons.IH[OF b] by auto
qed

lemma reconcileLoop_append:
  "reconcileLoop w e k ids (xs @ ys) s =
     (case reconcileLoop w e k ids xs s of Inl err \<Rightarrow> Inl err
      | Inr s' \<Rightarrow> reconcileLoop w e k ids ys s')"
  by (induction xs arbitrary: s) (auto split: sum.splits)

lemma reconcileLoop_row:
  assumes loop: "reconcileLoop w e k ids rows (initReconcile d) = Inr t"
    and dist: "distinct (map rowPageId rows)" and r: "r \<in> set rows"
  obtains s s' where "reconcileRow w e k ids r s = Inr s'"
    "r_db s ! rowPageId r = d ! rowPageId r" "length (r_db s) = length d"
    "r_db t ! rowPageId r = r_db s' ! rowPageId r" "listsGrow s' t"
proof -
  from r obtain pre post where sp: "rows = pre @ r # post" by (meson split_list)
  have npre: "rowPageId r \<notin> rowPageId ` set pre" and npost: "rowPageId r \<notin> rowPageId ` set post"
    using dist unfolding sp by auto
  from loop obtain s s' where
    l1: "reconcileLoop w e k ids pre (initReconcile d) = Inr s"
    and st: "reconcileRow w e k ids r s = Inr s'"
    and l2: "reconcileLoop w e k ids post s' = Inr t"
    unfolding sp reconcileLoop_append by (auto split: sum.splits)
  have 1: "r_db s ! rowPageId r = d ! rowPageId r" "length (r_db s) = length d"
    using reconcileLoop_frame[OF l1, of "rowPageId r"] npre by (auto simp: initReconcile_def)
  have 2: "r_db t ! rowPageId r = r_db s' ! rowPageId r"
    using reconcileLoop_frame[OF l2, of "rowPageId r"] npost by auto
  show ?thesis using that[OF st 1 2 reconcileLoop_grow[OF l2]] .
qed

lemma reconcileRun_row:
  assumes run: "reconcileRun w e k d = Inr t"
    and pg: "j < length d" "\<not> archived (d ! j)" "p_RaindropID (d ! j) = Some n"
  obtains ids fetched s s' where "enumLoop w e k 0 ([], 0) = Inr (ids, fetched)"
    "reconcileRow w e k ids (rowAt d j n) s = Inr s'"
    "r_db s ! j = d ! j" "length (r_db s) = length d"
    "r_db t ! j = r_db s' ! j" "listsGrow s' t"
proof -
  from run obtain ids fetched where en: "enumLoop w e k 0 ([], 0) = Inr (ids, fetched)"
    and loop: "reconcileLoop w e k ids (listAllNotionRows d) (initReconcile d) = Inr t"
    unfolding reconcileRun_def by (auto split: sum.splits)
  have mem: "rowAt d j n \<in> set (listAllNotionRows d)"
    using pg by (simp add: listAll_mem) (simp add: rowAt_def)
  have pid: "rowPageId (rowAt d j n) = j" by (simp add: rowAt_def)
  from reconcileLoop_row[OF loop listAll_distinct mem] pid en that show ?thesis by metis
qed

lemma rowAt_simps [simp]:
  "rowPageId (rowAt d j n) = j" "raindropId (rowAt d j n) = n"
  "rowLocked (rowAt d j n) = p_Lock (d ! j)" "deletedFlag (rowAt d j n) = p_Deleted (d ! j)"
  "deleteDetectedAt (rowAt d j n) = p_DeleteDetectedAt (d ! j)"
  by (simp_all add: rowAt_def)

lemma geNum_hours:
  "geNum (hoursSince now (Some (Instant t0))) g \<longleftrightarrow> g * 3600000 \<le> now - t0"
proof -
  have "(of_int g :: rat) \<le> of_int (now - t0) / 3600000 \<longleftrightarrow> (of_int g :: rat) * 3600000 \<le> of_int (now - t0)"
    by (simp add: pos_le_divide_eq)
  also have "\<dots> \<longleftrightarrow> (of_int (g * 3600000) :: rat) \<le> of_int (now - t0)" by simp
  also have "\<dots> \<longleftrightarrow> g * 3600000 \<le> now - t0" by (simp only: of_int_le_iff)
  finally show ?thesis by (simp add: hoursSince_def)
qed

lemma reconcileRun_length:
  "reconcileRun w e k d = Inr t \<Longrightarrow> length (r_db t) = length d"
  unfolding reconcileRun_def
  by (auto split: sum.splits dest!: reconcileLoop_frame simp: initReconcile_def)

lemma run_first_detection:
  assumes "reconcileRun w e k d = Inr t" "\<not> r_dryRun k"
    and "j < length d" "\<not> archived (d ! j)" "p_RaindropID (d ! j) = Some n"
    and "enumLoop w e k 0 ([], 0) = Inr (ids, fetched)" "n \<notin> set ids"
    and "fetchRaindropDetail w e n = Inr det" "\<not> (exists det \<and> removed det \<noteq> Some True)"
    and "\<not> p_Deleted (d ! j) \<or> \<not> truthy (p_DeleteDetectedAt (d ! j))"
  shows "r_db t ! j = (d ! j)\<lparr>p_Deleted := True,
            p_DeleteDetectedAt := Some (Instant (wallClock w AtFirstDetection j)),
            p_SyncedAt := Some (Instant (wallClock w InMarkDeleteDetected j)),
            p_Status := (if p_Lock (d ! j) then p_Status (d ! j) else Some ''Archived'')\<rparr>
       \<and> n \<in> set (deleteDetected t)"
proof -
  from reconcileRun_row[OF assms(1,3-5)] obtain ids' fetched' s s' where
    en: "enumLoop w e k 0 ([], 0) = Inr (ids', fetched')"
    and row: "reconcileRow w e k ids' (rowAt d j n) s = Inr s'"
    and pre: "r_db s ! j = d ! j" "length (r_db s) = length d"
    and post: "r_db t ! j = r_db s' ! j" and grow: "listsGrow s' t"
    by metis
  have ids: "ids' = ids" using en assms(6) by simp
  have js: "j < length (r_db s)" using pre(2) assms(3) by simp
  have "r_db s' = markDeleteDetected (wallClock w InMarkDeleteDetected j) j
                    (Instant (wallClock w AtFirstDetection j)) (\<not> p_Lock (d ! j)) (r_db s)
      \<and> n \<in> set (deleteDetected s')"
    using row assms(2,7-10) unfolding ids reconcileRow_def
    by (auto simp: Let_def unlessDry_def split: if_splits)
  then show ?thesis using js pre(1) post grow
    by (cases "d ! j") (auto simp: markDeleteDetected_def pagesUpdate_nth dateOrNull_def listsGrow_def)
qed

lemma run_archive_after_grace:
  assumes "reconcileRun w e k d = Inr t" "\<not> r_dryRun k"
    and "j < length d" "\<not> archived (d ! j)" "p_RaindropID (d ! j) = Some n"
    and "enumLoop w e k 0 ([], 0) = Inr (ids, fetched)" "n \<notin> set ids"
    and "fetchRaindropDetail w e n = Inr det" "\<not> (exists det \<and> removed det \<noteq> Some True)"
    and "p_Deleted (d ! j)" "p_DeleteDetectedAt (d ! j) = Some (Instant t0)"
    and "r_graceHours k * 3600000 \<le> wallClock w AtHoursSince j - t0"
    and "r_deleteMode k = ''archive''" "\<not> p_Lock (d ! j)"
  shows "r_db t ! j = (d ! j)\<lparr>archived := True\<rparr> \<and> n \<in> set (deleteArchivedNow t)"
proof -
  from reconcileRun_row[OF assms(1,3-5)] obtain ids' fetched' s s' where
    en: "enumLoop w e k 0 ([], 0) = Inr (ids', fetched')"
    and row: "reconcileRow w e k ids' (rowAt d j n) s = Inr s'"
    and pre: "r_db s ! j = d ! j" "length (r_db s) = length d"
    and post: "r_db t ! j = r_db s' ! j" and grow: "listsGrow s' t"
    by metis
  have ids: "ids' = ids" using en assms(6) by simp
  have js: "j < length (r_db s)" using pre(2) assms(3) by simp
  have "r_db s' = archivePage j (r_db s) \<and> n \<in> set (deleteArchivedNow s')"
    using row assms(2,7-14) unfolding ids reconcileRow_def
    by (auto simp: Let_def unlessDry_def geNum_hours split: if_splits)
  then show ?thesis using js pre(1) post grow
    by (auto simp: archivePage_def pagesUpdate_nth listsGrow_def)
qed

lemma run_within_grace:
  assumes "reconcileRun w e k d = Inr t"
    and "j < length d" "\<not> archived (d ! j)" "p_RaindropID (d ! j) = Some n"
    and "enumLoop w e k 0 ([], 0) = Inr (ids, fetched)" "n \<notin> set ids"
    and "fetchRaindropDetail w e n = Inr det" "\<not> (exists det \<and> removed det \<noteq> Some True)"
    and "p_Deleted (d ! j)" "p_DeleteDetectedAt (d ! j) = Some (Instant t0)"
    and "wallClock w AtHoursSince j - t0 < r_graceHours k * 3600000"
  shows "r_db t ! j = d ! j \<and> n \<in> set (deleteDetected t)"
proof -
  from reconcileRun_row[OF assms(1-4)] obtain ids' fetched' s s' where
    en: "enumLoop w e k 0 ([], 0) = Inr (ids', fetched')"
    and row: "reconcileRow w e k ids' (rowAt d j n) s = Inr s'"
    and pre: "r_db s ! j = d ! j" "length (r_db s) = length d"
    and post: "r_db t ! j = r_db s' ! j" and grow: "listsGrow s' t"
    by metis
  have ids: "ids' = ids" using en assms(5) by simp
  have "r_db s' = r_db s \<and> n \<in> set (deleteDetected s')"
    using row assms(6-11) unfolding ids reconcileRow_def
    by (auto simp: Let_def geNum_hours split: if_splits)
  then show ?thesis using pre(1) post grow by (auto simp: listsGrow_def)
qed

lemma run_present:
  assumes "reconcileRun w e k d = Inr t" "\<not> r_dryRun k"
    and "j < length d" "\<not> archived (d ! j)" "p_RaindropID (d ! j) = Some n"
    and "enumLoop w e k 0 ([], 0) = Inr (ids, fetched)" "n \<in> set ids"
  shows "if p_Deleted (d ! j)
         then r_db t ! j = (d ! j)\<lparr>p_Deleted := False, p_DeleteDetectedAt := None,
                p_SyncedAt := Some (Instant (wallClock w InClearDeleteFlags j))\<rparr>
              \<and> n \<in> set (clearedFlags t)
         else r_db t ! j = d ! j"
proof -
  from reconcileRun_row[OF assms(1,3-5)] obtain ids' fetched' s s' where
    en: "enumLoop w e k 0 ([], 0) = Inr (ids', fetched')"
    and row: "reconcileRow w e k ids' (rowAt d j n) s = Inr s'"
    and pre: "r_db s ! j = d ! j" "length (r_db s) = length d"
    and post: "r_db t ! j = r_db s' ! j" and grow: "listsGrow s' t"
    by metis
  have ids: "ids' = ids" using en assms(6) by simp
  have js: "j < length (r_db s)" using pre(2) assms(3) by simp
  have "if p_Deleted (d ! j)
        then r_db s' = clearDeleteFlags (wallClock w InClearDeleteFlags j) j (r_db s)
             \<and> n \<in> set (clearedFlags s')
        else s' = s"
    using row assms(2,7) unfolding ids reconcileRow_def
    by (auto simp: Let_def unlessDry_def split: if_splits)
  then show ?thesis using js pre(1) post grow
    by (cases "d ! j") (auto simp: clearDeleteFlags_def pagesUpdate_nth dateOrNull_def listsGrow_def
        split: if_splits)
qed


lemma run_moved:
  assumes "reconcileRun w e k d = Inr t" "\<not> r_dryRun k"
    and "j < length d" "\<not> archived (d ! j)" "p_RaindropID (d ! j) = Some n" "\<not> p_Lock (d ! j)"
    and "enumLoop w e k 0 ([], 0) = Inr (ids, fetched)" "n \<notin> set ids"
    and "fetchRaindropDetail w e n = Inr det" "exists det" "removed det \<noteq> Some True"
  shows "r_db t ! j =
           (if p_Deleted (d ! j)
            then (d ! j)\<lparr>p_Collection := titleOfMoved w det,
                   p_SyncedAt := Some (Instant (wallClock w InClearDeleteFlags j)),
                   p_Deleted := False, p_DeleteDetectedAt := None\<rparr>
            else (d ! j)\<lparr>p_Collection := titleOfMoved w det,
                   p_SyncedAt := Some (Instant (wallClock w InUpdateCollectionOnly j))\<rparr>)
       \<and> n \<in> set (moved t) \<and> (p_Deleted (d ! j) \<longrightarrow> n \<in> set (clearedFlags t))"
proof -
  from reconcileRun_row[OF assms(1,3-5)] obtain ids' fetched' s s' where
    en: "enumLoop w e k 0 ([], 0) = Inr (ids', fetched')"
    and row: "reconcileRow w e k ids' (rowAt d j n) s = Inr s'"
    and pre: "r_db s ! j = d ! j" "length (r_db s) = length d"
    and post: "r_db t ! j = r_db s' ! j" and grow: "listsGrow s' t"
    by metis
  have ids: "ids' = ids" using en assms(7) by simp
  have js: "j < length (r_db s)" using pre(2) assms(3) by simp
  have tok: "\<exists>tk. getRaindropToken e = Inr tk"
    using assms(9) by (cases "getRaindropToken e") (simp_all add: fetchRaindropDetail_def)
  let ?ttl = "case collectionId det of None \<Rightarrow> None
     | Some c \<Rightarrow> if c = 0 then None else catchUndefined (getCollectionTitleById w e (String c))"
  have coll: "(if truthyStr ?ttl then richText ?ttl else []) = titleOfMoved w det"
    using tok
    by (auto simp: titleOfMoved_def catchUndefined_def getCollectionTitleById_def richText_def
        split: option.splits http.splits)
  have db': "r_db s' = (if p_Deleted (d ! j)
         then clearDeleteFlags (wallClock w InClearDeleteFlags j) j
                (updateCollectionOnly (wallClock w InUpdateCollectionOnly j) j ?ttl (r_db s))
         else updateCollectionOnly (wallClock w InUpdateCollectionOnly j) j ?ttl (r_db s))"
    and mv: "n \<in> set (moved s')" and cl: "p_Deleted (d ! j) \<longrightarrow> n \<in> set (clearedFlags s')"
    using row assms(2,6,8-11) unfolding ids reconcileRow_def
    by (auto simp: Let_def unlessDry_def split: if_splits)
  have "r_db s' ! j =
           (if p_Deleted (d ! j)
            then (d ! j)\<lparr>p_Collection := (if truthyStr ?ttl then richText ?ttl else []),
                   p_SyncedAt := Some (Instant (wallClock w InClearDeleteFlags j)),
                   p_Deleted := False, p_DeleteDetectedAt := None\<rparr>
            else (d ! j)\<lparr>p_Collection := (if truthyStr ?ttl then richText ?ttl else []),
                   p_SyncedAt := Some (Instant (wallClock w InUpdateCollectionOnly j))\<rparr>)"
    unfolding db' using js pre(1)
    by (cases "d ! j")
       (simp add: clearDeleteFlags_def updateCollectionOnly_def pagesUpdate_nth dateOrNull_def)
  then show ?thesis unfolding coll using post mv cl grow by (auto simp: listsGrow_def)
qed

lemma run_moved_idle:
  assumes "reconcileRun w e k d = Inr t" "r_dryRun k \<or> p_Lock (d ! j)"
    and "j < length d" "\<not> archived (d ! j)" "p_RaindropID (d ! j) = Some n"
    and "enumLoop w e k 0 ([], 0) = Inr (ids, fetched)" "n \<notin> set ids"
    and "fetchRaindropDetail w e n = Inr det" "exists det" "removed det \<noteq> Some True"
  shows "r_db t ! j = d ! j
       \<and> (if p_Lock (d ! j) then n \<in> set (r_skippedLocked t) else n \<in> set (moved t))"
proof -
  from reconcileRun_row[OF assms(1,3-5)] obtain ids' fetched' s s' where
    en: "enumLoop w e k 0 ([], 0) = Inr (ids', fetched')"
    and row: "reconcileRow w e k ids' (rowAt d j n) s = Inr s'"
    and pre: "r_db s ! j = d ! j" "length (r_db s) = length d"
    and post: "r_db t ! j = r_db s' ! j" and grow: "listsGrow s' t"
    by metis
  have ids: "ids' = ids" using en assms(6) by simp
  have "r_db s' = r_db s
      \<and> (if p_Lock (d ! j) then n \<in> set (r_skippedLocked s') else n \<in> set (moved s'))"
    using row assms(2,7-10) unfolding ids reconcileRow_def
    by (auto simp: Let_def unlessDry_def split: if_splits)
  then show ?thesis using pre(1) post grow by (auto simp: listsGrow_def)
qed

lemma lockFrame_refl [simp]: "lockFrame p p"
  by (simp add: lockFrame_def)




lemma createdOld_dry [simp]: "createdOld (k\<lparr>dryRun := b\<rparr>) it = createdOld k it"
  by (simp add: createdOld_def split: option.splits)

lemma scanPageA_dry [simp]: "scanPageA (k\<lparr>dryRun := b\<rparr>) m xs st = scanPageA k m xs st"
  by (induction xs arbitrary: st) (simp_all add: Let_def)

lemma passAPage_dry [simp]: "passAPage w e (k\<lparr>dryRun := b\<rparr>) d pg st = passAPage w e k d pg st"
  by (simp add: passAPage_def Let_def split: sum.splits)

lemma passALoop_dry [simp]: "passALoop w e (k\<lparr>dryRun := b\<rparr>) d pg st = passALoop w e k d pg st"
proof (induction w e k d pg st rule: passALoop.induct)
  case (1 w e k d pg st)
  show ?case
    apply (subst passALoop.simps)
    apply (subst (2) passALoop.simps)
    using "1.IH" by (auto split: sum.splits)
qed

lemma passBPage_dry [simp]: "passBPage w e (k\<lparr>dryRun := b\<rparr>) q pg acc = passBPage w e k q pg acc"
  by (simp add: passBPage_def Let_def split: sum.splits)

lemma passBLoop_dry [simp]: "passBLoop w e (k\<lparr>dryRun := b\<rparr>) q pg acc = passBLoop w e k q pg acc"
proof (induction w e k q pg acc rule: passBLoop.induct)
  case (1 w e k q pg acc)
  show ?case
    apply (subst passBLoop.simps)
    apply (subst (2) passBLoop.simps)
    using "1.IH" by (auto split: sum.splits)
qed

lemma syncCandidates_dry [simp]:
  "syncCandidates w e (k\<lparr>dryRun := b\<rparr>) d = syncCandidates w e k d"
  by (simp add: syncCandidates_def candidateList_def split: sum.splits)

lemma resolveTitle_dry [simp]: "resolveTitle w e (k\<lparr>dryRun := b\<rparr>) it = resolveTitle w e k it"
  by (simp add: resolveTitle_def split: sum.splits option.splits)

lemma upsertLoop_parity:
  assumes "sameOutcome sd sr"
  shows "case (upsertLoop w e (k\<lparr>dryRun := True\<rparr>) m cands sd,
               upsertLoop w e (k\<lparr>dryRun := False\<rparr>) m cands sr) of
           (Inl e1, Inl e2) \<Rightarrow> e1 = e2
         | (Inr ud, Inr ur) \<Rightarrow> sameOutcome ud ur \<and> db ud = db sd
         | _ \<Rightarrow> False"
  using assms
proof (induction cands arbitrary: sd sr)
  case Nil then show ?case by simp
next
  case (Cons it cands)
  show ?case
  proof (cases "resolveTitle w e k it")
    case (Inl err)
    then show ?thesis by (simp add: upsertStep_def)
  next
    case (Inr ttl)
    then have "\<exists>sd' sr'. upsertStep w e (k\<lparr>dryRun := True\<rparr>) m it sd = Inr sd'
        \<and> upsertStep w e (k\<lparr>dryRun := False\<rparr>) m it sr = Inr sr'
        \<and> sameOutcome sd' sr' \<and> db sd' = db sd"
      using Cons.prems
      by (cases "m (item_id it)") (auto simp: upsertStep_def sameOutcome_def)
    then obtain sd' sr' where
      d: "upsertStep w e (k\<lparr>dryRun := True\<rparr>) m it sd = Inr sd'"
      and r: "upsertStep w e (k\<lparr>dryRun := False\<rparr>) m it sr = Inr sr'"
      and rel: "sameOutcome sd' sr'" and dbs: "db sd' = db sd"
      by blast
    from Cons.IH[OF rel] d r dbs show ?thesis by (simp split: sum.splits)
  qed
qed

lemma enumPage_dry [simp]: "enumPage w e (k\<lparr>r_dryRun := b\<rparr>) pg acc = enumPage w e k pg acc"
  by (simp add: enumPage_def Let_def split: sum.splits)

lemma enumLoop_dry [simp]: "enumLoop w e (k\<lparr>r_dryRun := b\<rparr>) pg acc = enumLoop w e k pg acc"
proof (induction w e k pg acc rule: enumLoop.induct)
  case (1 w e k pg acc)
  show ?case
    apply (subst enumLoop.simps)
    apply (subst (2) enumLoop.simps)
    using "1.IH" by (auto split: sum.splits)
qed

lemma reconcileRow_parity:
  assumes "sameLists sd sr"
  shows "case (reconcileRow w e (k\<lparr>r_dryRun := True\<rparr>) ids r sd,
               reconcileRow w e (k\<lparr>r_dryRun := False\<rparr>) ids r sr) of
           (Inl e1, Inl e2) \<Rightarrow> e1 = e2
         | (Inr td, Inr tr) \<Rightarrow> sameLists td tr \<and> r_db td = r_db sd
         | _ \<Rightarrow> False"
  using assms unfolding reconcileRow_def sameLists_def unlessDry_def Let_def
  by (auto split: sum.splits)

lemma reconcileLoop_parity:
  assumes "sameLists sd sr"
  shows "case (reconcileLoop w e (k\<lparr>r_dryRun := True\<rparr>) ids rows sd,
               reconcileLoop w e (k\<lparr>r_dryRun := False\<rparr>) ids rows sr) of
           (Inl e1, Inl e2) \<Rightarrow> e1 = e2
         | (Inr td, Inr tr) \<Rightarrow> sameLists td tr \<and> r_db td = r_db sd
         | _ \<Rightarrow> False"
  using assms
proof (induction rows arbitrary: sd sr)
  case Nil then show ?case by simp
next
  case (Cons r rows)
  show ?case
    using reconcileRow_parity[OF Cons.prems, of w e k ids r]
    by (auto split: sum.splits dest!: Cons.IH[of _ _])
qed


section \<open>The scans and the candidate list\<close>

lemma keysOf_mapSet [simp]: "keysOf (mapSet k v m) = insert k (keysOf m)"
  by (simp add: keysOf_def mapSet_keys)

lemma scanPageA_Cons:
  "scanPageA k m (x # xs) st =
     (if createdOld k x \<and> hitsStop k \<le> consecutiveExisting (scanStep k m x st)
      then (scanStep k m x st)\<lparr>stopReasonA := Some timeWindowStop\<rparr>
      else scanPageA k m xs (scanStep k m x st))"
  by (simp add: Let_def scanStep_def timeWindowStop_def)

declare scanPageA.simps(2) [simp del]

lemma scanStep_simps [simp]:
  "stopReasonA (scanStep k m x st) = stopReasonA st"
  "pagesFetchedA (scanStep k m x st) = pagesFetchedA st"
  "consecutiveExisting (scanStep k m x st) =
     (if m (item_id x) \<noteq> None then consecutiveExisting st + 1 else 0)"
  "passAItems (scanStep k m x st) =
     (if \<not> createdOld k x then mapSet (item_id x) x (passAItems st) else passAItems st)"
  by (simp_all add: scanStep_def)

lemma scanPageA_keys_mono: "keysOf (passAItems st) \<subseteq> keysOf (passAItems (scanPageA k m xs st))"
proof (induction xs arbitrary: st)
  case Nil then show ?case by simp
next
  case (Cons x xs)
  show ?case using Cons.IH[of "scanStep k m x st"] by (auto simp: scanPageA_Cons)
qed

lemma scanPageA_fetched [simp]:
  "pagesFetchedA (scanPageA k m xs st) = pagesFetchedA st"
proof (induction xs arbitrary: st)
  case Nil then show ?case by simp
next
  case (Cons x xs)
  show ?case using Cons.IH[of "scanStep k m x st"] by (auto simp: scanPageA_Cons)
qed

lemma mapSet_set:
  "distinct (map fst m) \<Longrightarrow> set (mapSet k v m) = {kv \<in> set m. fst kv \<noteq> k} \<union> {(k, v)}"
  by (induction m) (auto simp: image_iff)

lemma mapSet_distinct: "distinct (map fst m) \<Longrightarrow> distinct (map fst (mapSet k v m))"
  by (simp add: mapSet_map_fst)

lemma foldl_mapSet_set:
  "distinct (map fst m) \<Longrightarrow> distinct (map fst b) \<Longrightarrow>
   set (foldl (\<lambda>m kv. mapSet (fst kv) (snd kv) m) m b) = {kv \<in> set m. fst kv \<notin> fst ` set b} \<union> set b
   \<and> distinct (map fst (foldl (\<lambda>m kv. mapSet (fst kv) (snd kv) m) m b))"
proof (induction b arbitrary: m)
  case Nil then show ?case by simp
next
  case (Cons kv b)
  let ?m1 = "mapSet (fst kv) (snd kv) m"
  have d1: "distinct (map fst ?m1)" using Cons.prems(1) by (rule mapSet_distinct)
  have db: "distinct (map fst b)" and nk: "fst kv \<notin> fst ` set b" using Cons.prems(2) by auto
  have s1: "set ?m1 = {x \<in> set m. fst x \<noteq> fst kv} \<union> {kv}"
    using mapSet_set[OF Cons.prems(1), of "fst kv" "snd kv"] by simp
  from Cons.IH[OF d1 db] s1 nk show ?case by auto
qed

lemma unionCandidates_set:
  assumes "wfMap a" "wfMap b"
  shows "set (unionCandidates a b) = {kv \<in> set a. fst kv \<notin> keysOf b} \<union> set b"
proof -
  have da: "distinct (map fst a)" and db: "distinct (map fst b)" using assms by (auto simp: wfMap_def)
  have 1: "set (foldl (\<lambda>m kv. mapSet (fst kv) (snd kv) m) [] a) = set a
      \<and> distinct (map fst (foldl (\<lambda>m kv. mapSet (fst kv) (snd kv) m) [] a))"
    using foldl_mapSet_set[of "[]" a] da by simp
  then show ?thesis
    using foldl_mapSet_set[of "foldl (\<lambda>m kv. mapSet (fst kv) (snd kv) m) [] a" b] db
    by (simp add: unionCandidates_def keysOf_def)
qed

lemma unionCandidates_keys:
  "wfMap a \<Longrightarrow> wfMap b \<Longrightarrow> keysOf (unionCandidates a b) = keysOf a \<union> keysOf b"
  unfolding keysOf_def[of "unionCandidates a b"] unionCandidates_set
  by (auto simp: keysOf_def image_iff)

lemma candidateList_all:
  assumes "int (length (candidateList k u)) < limitQP k"
  shows "candidateList k u = map snd u"
proof -
  have "limitQP k \<noteq> 0" using assms by auto
  then have c: "candidateList k u = take (nat (limitQP k)) (map snd u)"
    by (simp add: candidateList_def)
  have "length (take (nat (limitQP k)) (map snd u)) < nat (limitQP k)"
    using assms unfolding c by linarith
  then have "length u < nat (limitQP k)" by (simp add: min_def split: if_splits)
  then show ?thesis unfolding c by simp
qed

lemma upsertLoop_evaluates:
  assumes "upsertLoop w e k m cands (initUpsert d) = Inr u" "it \<in> set cands"
  shows "item_id it \<in> (if dryRun k then set (toCreatePreview u) \<union> set (toUpdatePreview u)
                         else set (createdIds u) \<union> set (updatedIds u)) \<union> set (alreadyExists u)"
  using upsertLoop_lists[OF assms(1)] assms(2)
  by (cases "m (item_id it) = None"; cases "isUpdate m it"; cases "dryRun k")
     (auto simp: initUpsert_def)

lemma syncRun_parts:
  assumes "syncRun w e k d = Inr (rep, d')"
  obtains a b1 b u where
    "passALoop w e k d 0 initPassA = Inr a"
    "passBLoop w e k (LastUpdateAfter (sinceDateOnly k)) 0 ([], 0) = Inr b1"
    "passBLoop w e k (CreatedAfter (sinceDateOnly k)) 0 b1 = Inr b"
    "upsertLoop w e k (getPagesByRaindropIds d
        (map item_id (candidateList k (unionCandidates (passAItems a) (fst b)))))
        (candidateList k (unionCandidates (passAItems a) (fst b))) (initUpsert d) = Inr u"
    "rep = syncReport k a b (candidateList k (unionCandidates (passAItems a) (fst b))) u"
    "d' = db u"
  using assms unfolding syncRun_def syncCandidates_def
  by (auto simp: Let_def split: sum.splits)

section \<open>The rows of the database across a run\<close>

lemma rowIds_Nil [simp]: "rowIds [] = []" by (simp add: rowIds_def)

lemma rowIds_append [simp]: "rowIds (xs @ ys) = rowIds xs @ rowIds ys" by (simp add: rowIds_def)

lemma rowIds_single:
  "rowIds [p] = (if archived p then [] else (case p_RaindropID p of None \<Rightarrow> [] | Some n \<Rightarrow> [n]))"
  by (simp add: rowIds_def)

lemma rowIds_alt:
  "rowIds d = map (the \<circ> p_RaindropID) (filter (\<lambda>p. \<not> archived p \<and> p_RaindropID p \<noteq> None) d)"
  by (induction d) (auto simp: rowIds_def split: option.splits)

lemma filter_zip_snd:
  "length xs = length ys \<Longrightarrow> map snd (filter (\<lambda>ip. P (snd ip)) (zip xs ys)) = filter P ys"
  by (induction xs ys rule: list_induct2) auto

lemma queryAll_snd:
  "map snd (queryAll d flt) = filter (\<lambda>p. \<not> archived p \<and> flt p) d"
  using filter_zip_snd[of "[0..<length d]" d "\<lambda>p. \<not> archived p \<and> flt p"]
  by (simp add: queryAll_def case_prod_unfold)

lemma rowIds_query:
  "rowIds d = map (the \<circ> p_RaindropID \<circ> snd) (queryAll d (\<lambda>p. p_RaindropID p \<noteq> None))"
proof -
  have "map (the \<circ> p_RaindropID \<circ> snd) (queryAll d (\<lambda>p. p_RaindropID p \<noteq> None))
      = map (the \<circ> p_RaindropID) (map snd (queryAll d (\<lambda>p. p_RaindropID p \<noteq> None)))"
    by simp
  then show ?thesis unfolding queryAll_snd rowIds_alt by simp
qed

lemma rowIds_mem:
  "n \<in> set (rowIds d) \<longleftrightarrow> (\<exists>j < length d. \<not> archived (d ! j) \<and> p_RaindropID (d ! j) = Some n)"
proof
  assume "n \<in> set (rowIds d)"
  then obtain p where "p \<in> set d" "\<not> archived p" "p_RaindropID p = Some n"
    unfolding rowIds_alt by auto
  then show "\<exists>j < length d. \<not> archived (d ! j) \<and> p_RaindropID (d ! j) = Some n"
    by (auto simp: in_set_conv_nth)
next
  assume "\<exists>j < length d. \<not> archived (d ! j) \<and> p_RaindropID (d ! j) = Some n"
  then obtain j where "j < length d" "\<not> archived (d ! j)" "p_RaindropID (d ! j) = Some n" by blast
  then have "d ! j \<in> set (filter (\<lambda>p. \<not> archived p \<and> p_RaindropID p \<noteq> None) d)" by simp
  then have "(the \<circ> p_RaindropID) (d ! j) \<in> set (rowIds d)"
    unfolding rowIds_alt set_map by (rule imageI)
  then show "n \<in> set (rowIds d)" using \<open>p_RaindropID (d ! j) = Some n\<close> by simp
qed

lemma row_unique:
  assumes "distinct (rowIds d)" "j < length d" "j' < length d"
    and "\<not> archived (d ! j)" "\<not> archived (d ! j')"
    and "p_RaindropID (d ! j) = Some n" "p_RaindropID (d ! j') = Some n"
  shows "j = j'"
proof -
  let ?q = "queryAll d (\<lambda>p. p_RaindropID p \<noteq> None)"
  have inj: "inj_on (the \<circ> p_RaindropID \<circ> snd) (set ?q)"
    using assms(1) unfolding rowIds_query by (simp add: distinct_map)
  have "(j, d ! j) \<in> set ?q" "(j', d ! j') \<in> set ?q"
    using assms(2-7) by (simp_all add: queryAll_iff)
  moreover have "(the \<circ> p_RaindropID \<circ> snd) (j, d ! j) = (the \<circ> p_RaindropID \<circ> snd) (j', d ! j')"
    using assms(6,7) by simp
  ultimately have "(j, d ! j) = (j', d ! j')" using inj by (meson inj_onD)
  then show ?thesis by simp
qed

lemma queryChunk_full:
  assumes "distinct (rowIds d)" "length chunk \<le> 100"
  shows "queryChunk d chunk =
     queryAll d (\<lambda>p. case p_RaindropID p of None \<Rightarrow> False | Some n \<Rightarrow> n \<in> set chunk)"
proof -
  let ?flt = "\<lambda>p. case p_RaindropID p of None \<Rightarrow> False | Some n \<Rightarrow> n \<in> set chunk"
  have fl: "filter (\<lambda>p. \<not> archived p \<and> ?flt p) d
      = filter (\<lambda>p. (the \<circ> p_RaindropID) p \<in> set chunk)
          (filter (\<lambda>p. \<not> archived p \<and> p_RaindropID p \<noteq> None) d)"
    by (induction d) (auto split: option.splits)
  have "map (the \<circ> p_RaindropID) (map snd (queryAll d ?flt))
      = filter (\<lambda>n. n \<in> set chunk) (rowIds d)"
    unfolding queryAll_snd fl rowIds_alt by (simp add: filter_map comp_def)
  then have "length (queryAll d ?flt) = length (filter (\<lambda>n. n \<in> set chunk) (rowIds d))"
    by (metis length_map)
  also have "\<dots> = card (set (filter (\<lambda>n. n \<in> set chunk) (rowIds d)))"
    by (rule distinct_card[symmetric]) (rule distinct_filter[OF assms(1)])
  also have "\<dots> \<le> card (set chunk)" by (intro card_mono) auto
  also have "\<dots> \<le> length chunk" by (rule card_length)
  finally have "length (queryAll d ?flt) \<le> 100" using assms(2) by simp
  then show ?thesis by (simp add: queryChunk_def)
qed

lemma foundOfPage_keeps: "out n \<noteq> None \<Longrightarrow> foundOfPage out ip n \<noteq> None"
  by (simp add: foundOfPage_def split: option.splits)

lemma foldl_found_keeps: "out n \<noteq> None \<Longrightarrow> foldl foundOfPage out ps n \<noteq> None"
proof (induction ps arbitrary: out)
  case Nil then show ?case by simp
next
  case (Cons a ps)
  have "foundOfPage out a n \<noteq> None" using Cons.prems by (rule foundOfPage_keeps)
  then have "foldl foundOfPage (foundOfPage out a) ps n \<noteq> None" by (rule Cons.IH)
  then show ?case by simp
qed

lemma foldl_found_sets:
  "ip \<in> set ps \<Longrightarrow> p_RaindropID (snd ip) = Some n \<Longrightarrow> foldl foundOfPage out ps n \<noteq> None"
proof (induction ps arbitrary: out)
  case Nil then show ?case by simp
next
  case (Cons x ps)
  show ?case
  proof (cases "ip = x")
    case True
    then have "foundOfPage out x n \<noteq> None" using Cons.prems(2) by (simp add: foundOfPage_def)
    then show ?thesis by (simp add: foldl_found_keeps)
  next
    case False
    then show ?thesis using Cons by simp
  qed
qed

lemma getPagesLoop_keeps:
  "out n \<noteq> None \<Longrightarrow> getPagesLoop d ids i out n \<noteq> None"
proof (induction d ids i out rule: getPagesLoop.induct)
  case (1 d ids i out)
  show ?case
  proof (cases "i < length ids")
    case True
    have "foldl foundOfPage out (queryChunk d (take NOTION_QUERY_CHUNK (drop i ids))) n \<noteq> None"
      using "1.prems" by (rule foldl_found_keeps)
    from "1.IH"[OF True this] True show ?thesis by (subst getPagesLoop.simps) simp
  next
    case False
    then show ?thesis using "1.prems" by (subst getPagesLoop.simps) simp
  qed
qed

lemma getPagesLoop_complete:
  "distinct (rowIds d) \<Longrightarrow> n \<in> set (drop i ids) \<Longrightarrow> n \<in> set (rowIds d) \<Longrightarrow>
   getPagesLoop d ids i out n \<noteq> None"
proof (induction d ids i out rule: getPagesLoop.induct)
  case (1 d ids i out)
  have il: "i < length ids"
  proof (rule ccontr)
    assume "\<not> i < length ids"
    then have "drop i ids = []" by simp
    then show False using "1.prems"(2) by simp
  qed
  let ?chunk = "take NOTION_QUERY_CHUNK (drop i ids)"
  let ?out = "foldl foundOfPage out (queryChunk d ?chunk)"
  have step: "getPagesLoop d ids i out = getPagesLoop d ids (i + NOTION_QUERY_CHUNK) ?out"
    using il by (subst getPagesLoop.simps) simp
  have e: "drop NOTION_QUERY_CHUNK (drop i ids) = drop (i + NOTION_QUERY_CHUNK) ids"
    by (simp add: add.commute)
  have "set (?chunk @ drop NOTION_QUERY_CHUNK (drop i ids)) = set (drop i ids)"
    by (simp only: append_take_drop_id)
  then have "set (drop i ids) = set ?chunk \<union> set (drop (i + NOTION_QUERY_CHUNK) ids)"
    unfolding e by (simp only: set_append)
  then consider (here) "n \<in> set ?chunk" | (later) "n \<in> set (drop (i + NOTION_QUERY_CHUNK) ids)"
    using "1.prems"(2) by blast
  then show ?case
  proof cases
    case here
    from "1.prems"(3)[unfolded rowIds_mem]
    obtain j where j: "j < length d" "\<not> archived (d ! j)" "p_RaindropID (d ! j) = Some n"
      by blast
    have len: "length ?chunk \<le> 100" by (simp add: NOTION_QUERY_CHUNK_def)
    have "(j, d ! j) \<in> set (queryChunk d ?chunk)"
      unfolding queryChunk_full[OF "1.prems"(1) len] queryAll_iff using j here by simp
    then have "?out n \<noteq> None"
      by (rule foldl_found_sets) (simp add: j(3))
    then have "getPagesLoop d ids (i + NOTION_QUERY_CHUNK) ?out n \<noteq> None"
      by (rule getPagesLoop_keeps)
    then show ?thesis unfolding step .
  next
    case later
    have "getPagesLoop d ids (i + NOTION_QUERY_CHUNK) ?out n \<noteq> None"
      by (rule "1.IH"[OF il "1.prems"(1) later "1.prems"(3)])
    then show ?thesis unfolding step .
  qed
qed

lemma lookup_iff:
  assumes "distinct (rowIds d)" "n \<in> set ids"
  shows "getPagesByRaindropIds d ids n \<noteq> None \<longleftrightarrow> n \<in> set (rowIds d)"
proof
  assume "getPagesByRaindropIds d ids n \<noteq> None"
  then obtain f where "getPagesByRaindropIds d ids n = Some f" by auto
  then have "goodFound d n f" by (rule getPages_good)
  then show "n \<in> set (rowIds d)" unfolding rowIds_mem goodFound_def by blast
next
  assume "n \<in> set (rowIds d)"
  moreover have "n \<in> set (drop 0 ids)" using assms(2) by simp
  ultimately show "getPagesByRaindropIds d ids n \<noteq> None"
    unfolding getPagesByRaindropIds_def by (rule getPagesLoop_complete[OF assms(1), rotated])
qed

lemma rowIds_list_update:
  assumes "j < length d" "archived x = archived (d ! j)" "p_RaindropID x = p_RaindropID (d ! j)"
  shows "rowIds (d[j := x]) = rowIds d"
proof -
  let ?g = "\<lambda>p. if archived p then [] else (case p_RaindropID p of None \<Rightarrow> [] | Some n \<Rightarrow> [n])"
  have "map ?g (d[j := x]) = (map ?g d)[j := ?g x]" by (rule map_update)
  also have "?g x = map ?g d ! j" using assms by simp
  also have "(map ?g d)[j := map ?g d ! j] = map ?g d" by (rule list_update_id)
  finally show ?thesis by (simp add: rowIds_def)
qed

lemma rowIds_update:
  "rowIds (updateFromRaindrop now j it ttl d) = rowIds d"
  unfolding updateFromRaindrop_def pagesUpdate_def
  by (simp add: rowIds_list_update)

lemma rowIds_create:
  "rowIds (createFromRaindrop now it ttl d) = rowIds d @ [item_id it]"
  by (simp add: createFromRaindrop_def pagesCreate_def rowIds_single)

lemma upsertLoop_rowIds:
  "upsertLoop w e k m cands st = Inr u \<Longrightarrow>
   rowIds (db u) = rowIds (db st)
     @ (if dryRun k then [] else map item_id (filter (\<lambda>it. m (item_id it) = None) cands))"
proof (induction cands arbitrary: st)
  case Nil then show ?case by simp
next
  case (Cons it cands)
  from Cons.prems obtain st1 where s1: "upsertStep w e k m it st = Inr st1"
    and l1: "upsertLoop w e k m cands st1 = Inr u" by (auto split: sum.splits)
  from s1 show ?case using Cons.IH[OF l1]
    by (cases rule: upsertStep_cases) (simp_all add: rowIds_update rowIds_create)
qed

lemma upsertLoop_length:
  "upsertLoop w e k m cands st = Inr u \<Longrightarrow> length (db st) \<le> length (db u)"
proof (induction cands arbitrary: st)
  case Nil then show ?case by simp
next
  case (Cons it cands)
  from Cons.prems obtain st1 where s1: "upsertStep w e k m it st = Inr st1"
    and l1: "upsertLoop w e k m cands st1 = Inr u" by (auto split: sum.splits)
  have "length (db st) \<le> length (db st1)"
    using s1 by (cases rule: upsertStep_cases)
      (auto simp: updateFromRaindrop_def createFromRaindrop_def pagesCreate_def)
  then show ?case using Cons.IH[OF l1] by simp
qed

lemma upsertLoop_idle:
  "upsertLoop w e k m cands st = Inr u \<Longrightarrow>
   \<forall>it \<in> set cands. m (item_id it) \<noteq> None \<and> \<not> isUpdate m it \<Longrightarrow>
   db u = db st \<and> createdCount u = createdCount st \<and> updatedCount u = updatedCount st
   \<and> createdIds u = createdIds st \<and> updatedIds u = updatedIds st"
proof (induction cands arbitrary: st)
  case Nil then show ?case by simp
next
  case (Cons it cands)
  from Cons.prems(1) obtain st1 where s1: "upsertStep w e k m it st = Inr st1"
    and l1: "upsertLoop w e k m cands st1 = Inr u" by (auto split: sum.splits)
  have "db st1 = db st \<and> createdCount st1 = createdCount st \<and> updatedCount st1 = updatedCount st
      \<and> createdIds st1 = createdIds st \<and> updatedIds st1 = updatedIds st"
    using s1 Cons.prems(2) by (cases rule: upsertStep_cases) (auto simp: isUpdate_def)
  moreover have "db u = db st1 \<and> createdCount u = createdCount st1 \<and> updatedCount u = updatedCount st1
      \<and> createdIds u = createdIds st1 \<and> updatedIds u = updatedIds st1"
    by (rule Cons.IH[OF l1]) (use Cons.prems(2) in simp)
  ultimately show ?case by simp
qed

lemma upsertLoop_resolves:
  "upsertLoop w e k m cands st = Inr u \<Longrightarrow> it \<in> set cands \<Longrightarrow> \<exists>t. resolveTitle w e k it = Inr t"
proof (induction cands arbitrary: st)
  case Nil then show ?case by simp
next
  case (Cons x cands)
  from Cons.prems(1) obtain st1 where s1: "upsertStep w e k m x st = Inr st1"
    and l1: "upsertLoop w e k m cands st1 = Inr u" by (auto split: sum.splits)
  have "\<exists>t. resolveTitle w e k x = Inr t"
    using s1 unfolding upsertStep_def by (auto split: sum.splits)
  then show ?case using Cons.IH[OF l1] Cons.prems(2) by auto
qed

lemma upsertLoop_total:
  "\<forall>it \<in> set cands. \<exists>t. resolveTitle w e k it = Inr t \<Longrightarrow> \<exists>u. upsertLoop w e k m cands st = Inr u"
proof (induction cands arbitrary: st)
  case Nil then show ?case by simp
next
  case (Cons x cands)
  from Cons.prems obtain t where "resolveTitle w e k x = Inr t" by auto
  then have "\<exists>st1. upsertStep w e k m x st = Inr st1"
    by (cases "m (item_id x)") (simp_all add: upsertStep_def)
  then obtain st1 where s1: "upsertStep w e k m x st = Inr st1" by blast
  have "\<exists>u. upsertLoop w e k m cands st1 = Inr u" by (rule Cons.IH) (use Cons.prems in auto)
  then show ?case using s1 by simp
qed

text \<open>The page a real run creates for a candidate that had no row.\<close>

lemma upsertLoop_created_page:
  assumes loop: "upsertLoop w e k m cands (initUpsert d) = Inr u" and real: "\<not> dryRun k"
    and good: "\<And>n f. m n = Some f \<Longrightarrow> goodFound d n f"
    and it: "item \<in> set cands" and none: "m (item_id item) = None"
  shows "\<exists>j < length (db u). \<not> archived (db u ! j) \<and> p_RaindropID (db u ! j) = Some (item_id item)
      \<and> p_RaindropLastUpdate (db u ! j) = dateOrNull (itemLast item) \<and> \<not> p_Lock (db u ! j)"
proof -
  from it obtain pre post where sp: "cands = pre @ item # post" by (meson split_list)
  from loop obtain s1 s2 where
    l1: "upsertLoop w e k m pre (initUpsert d) = Inr s1"
    and st: "upsertStep w e k m item s1 = Inr s2"
    and l2: "upsertLoop w e k m post s2 = Inr u"
    unfolding sp upsertLoop_append by (auto split: sum.splits)
  let ?j = "length (db s1)"
  have len1: "length d \<le> ?j" using upsertLoop_length[OF l1] by (simp add: initUpsert_def)
  from st none real obtain ttl now where s2: "db s2 = createFromRaindrop now item ttl (db s1)"
    by (cases rule: upsertStep_cases) auto
  have j2: "?j < length (db s2)" by (simp add: s2 createFromRaindrop_def pagesCreate_def)
  have pg: "db s2 ! ?j = last (createFromRaindrop now item ttl [])"
    by (simp add: s2 createFromRaindrop_def pagesCreate_def)
  have other: "pageId f \<noteq> ?j" if "m (item_id it') = Some f" for it' f
    using good[OF that] len1 by (simp add: goodFound_def)
  have "db u ! ?j = db s2 ! ?j \<and> length (db s2) \<le> length (db u)"
    by (rule upsertLoop_frame[OF l2 j2]) (use other in blast)
  then show ?thesis using j2 pg
    by (intro exI[of _ ?j]) (simp add: createFromRaindrop_def pagesCreate_def)
qed

lemma run_rowIds_distinct:
  assumes loop: "upsertLoop w e k (getPagesByRaindropIds d (map item_id cands)) cands (initUpsert d) = Inr u"
    and dist: "distinct (map item_id cands)" and dd: "distinct (rowIds d)"
  shows "distinct (rowIds (db u))" and "set (rowIds d) \<subseteq> set (rowIds (db u))"
proof -
  let ?m = "getPagesByRaindropIds d (map item_id cands)"
  let ?new = "if dryRun k then [] else map item_id (filter (\<lambda>it. ?m (item_id it) = None) cands)"
  have r: "rowIds (db u) = rowIds d @ ?new"
    using upsertLoop_rowIds[OF loop] by (simp add: initUpsert_def)
  have dn: "distinct ?new" using dist by (simp add: distinct_map_filter)
  have disj: "set (rowIds d) \<inter> set ?new = {}"
  proof (rule ccontr)
    assume "set (rowIds d) \<inter> set ?new \<noteq> {}"
    then obtain it where it: "it \<in> set cands" "?m (item_id it) = None" "item_id it \<in> set (rowIds d)"
      by (auto split: if_splits)
    have "item_id it \<in> set (map item_id cands)" using it(1) by simp
    from lookup_iff[OF dd this] it(2,3) show False by simp
  qed
  show "distinct (rowIds (db u))" unfolding r using dd dn disj by simp
  show "set (rowIds d) \<subseteq> set (rowIds (db u))" unfolding r by simp
qed

lemma second_lookup:
  assumes loop: "upsertLoop w e k (getPagesByRaindropIds d (map item_id cands)) cands (initUpsert d) = Inr u"
    and real: "\<not> dryRun k"
    and dist: "distinct (map item_id cands)" and dd: "distinct (rowIds d)"
    and it: "item \<in> set cands" and in2: "item_id item \<in> set ids2"
  shows "getPagesByRaindropIds (db u) ids2 (item_id item) \<noteq> None
       \<and> \<not> isUpdate (getPagesByRaindropIds (db u) ids2) item"
proof -
  let ?m1 = "getPagesByRaindropIds d (map item_id cands)"
  let ?m2 = "getPagesByRaindropIds (db u) ids2"
  let ?n = "item_id item"
  have good1: "\<And>n f. ?m1 n = Some f \<Longrightarrow> goodFound d n f" by (rule getPages_good)
  have du: "distinct (rowIds (db u))" and sub: "set (rowIds d) \<subseteq> set (rowIds (db u))"
    using run_rowIds_distinct[OF loop dist dd] by auto
  have len: "length d \<le> length (db u)" using upsertLoop_length[OF loop] by (simp add: initUpsert_def)
  have page: "\<exists>j < length (db u). \<not> archived (db u ! j) \<and> p_RaindropID (db u ! j) = Some ?n
      \<and> (p_Lock (db u ! j) \<or> \<not> newerThan (itemLast item) (p_RaindropLastUpdate (db u ! j)))"
  proof (cases "?m1 ?n")
    case None
    from upsertLoop_created_page[OF loop real good1 it None] show ?thesis
      by (auto simp: newerThan_self)
  next
    case (Some f1)
    have g: "goodFound d ?n f1" using Some by (rule good1)
    then have j1: "pageId f1 < length d" by (simp add: goodFound_def)
    note pg = upsertLoop_page[OF loop good1 dist it Some]
    show ?thesis
    proof (cases "isUpdate ?m1 item")
      case True
      then obtain ttl where "db u ! pageId f1 =
          updateFromRaindrop (wallClock w InUpdateFromRaindrop (pageId f1)) (pageId f1)
            item ttl d ! pageId f1"
        using pg real by auto
      then have "\<not> archived (db u ! pageId f1) \<and> p_RaindropID (db u ! pageId f1) = Some ?n
          \<and> p_RaindropLastUpdate (db u ! pageId f1) = dateOrNull (itemLast item)"
        using g j1 by (simp add: updateFromRaindrop_def pagesUpdate_nth goodFound_def)
      then show ?thesis using j1 len by (intro exI[of _ "pageId f1"]) (simp add: newerThan_self)
    next
      case False
      then have same: "db u ! pageId f1 = d ! pageId f1" using pg by simp
      have "locked f1 \<or> \<not> newerThan (itemLast item) (raindropLastUpdate f1)"
        using False Some by (simp add: isUpdate_def)
      then show ?thesis using g j1 len same
        by (intro exI[of _ "pageId f1"]) (auto simp: goodFound_def)
    qed
  qed
  then obtain j where j: "j < length (db u)" "\<not> archived (db u ! j)"
    "p_RaindropID (db u ! j) = Some ?n"
    "p_Lock (db u ! j) \<or> \<not> newerThan (itemLast item) (p_RaindropLastUpdate (db u ! j))"
    by blast
  have "?n \<in> set (rowIds (db u))" unfolding rowIds_mem using j by blast
  then have "?m2 ?n \<noteq> None" using lookup_iff[OF du in2] by simp
  then obtain f2 where f2: "?m2 ?n = Some f2" by auto
  then have g2: "goodFound (db u) ?n f2" by (rule getPages_good)
  then have "pageId f2 = j"
    using row_unique[OF du _ j(1) _ j(2) _ j(3), of "pageId f2"] by (simp add: goodFound_def)
  then have "locked f2 \<or> \<not> newerThan (itemLast item) (raindropLastUpdate f2)"
    using g2 j(4) by (simp add: goodFound_def)
  then show ?thesis using f2 by (simp add: isUpdate_def)
qed

section \<open>Pass A against a database that has grown\<close>

lemma scanPageA_stop_here:
  "createdOld k x \<and> hitsStop k \<le> consecutiveExisting (scanStep k m x st) \<Longrightarrow>
   scanPageA k m (x # xs) st = (scanStep k m x st)\<lparr>stopReasonA := Some timeWindowStop\<rparr>"
  by (subst scanPageA_Cons) (rule if_P)

lemma scanPageA_go_on:
  "\<not> (createdOld k x \<and> hitsStop k \<le> consecutiveExisting (scanStep k m x st)) \<Longrightarrow>
   scanPageA k m (x # xs) st = scanPageA k m xs (scanStep k m x st)"
  by (subst scanPageA_Cons) (rule if_not_P)

lemma scan_old_noop:
  "\<forall>y \<in> set xs. createdOld k y \<Longrightarrow> passAItems (scanPageA k m xs st) = passAItems st"
proof (induction xs arbitrary: st)
  case Nil then show ?case by simp
next
  case (Cons x xs)
  have old: "createdOld k x" and rest: "\<forall>y \<in> set xs. createdOld k y" using Cons.prems by auto
  show ?case
  proof (cases "createdOld k x \<and> hitsStop k \<le> consecutiveExisting (scanStep k m x st)")
    case True
    then show ?thesis using old by (simp add: scanPageA_stop_here)
  next
    case False
    then show ?thesis using old Cons.IH[OF rest, of "scanStep k m x st"]
      by (simp add: scanPageA_go_on)
  qed
qed

lemma scan_stop_old:
  "stopReasonA st = None \<Longrightarrow> stopReasonA (scanPageA k m xs st) \<noteq> None \<Longrightarrow>
   \<exists>x \<in> set xs. createdOld k x"
proof (induction xs arbitrary: st)
  case Nil then show ?case by simp
next
  case (Cons x xs)
  show ?case
  proof (cases "createdOld k x \<and> hitsStop k \<le> consecutiveExisting (scanStep k m x st)")
    case True then show ?thesis by simp
  next
    case False
    then have "scanPageA k m (x # xs) st = scanPageA k m xs (scanStep k m x st)"
      by (rule scanPageA_go_on)
    then have "\<exists>y \<in> set xs. createdOld k y"
      using Cons.IH[of "scanStep k m x st"] Cons.prems by simp
    then show ?thesis by auto
  qed
qed

lemma scan_sim:
  assumes "\<forall>x \<in> set xs. m1 (item_id x) \<noteq> None \<longrightarrow> m2 (item_id x) \<noteq> None"
    and "simRel s1 s2" "oldClosed k xs"
  shows "passAItems (scanPageA k m2 xs s2) = passAItems (scanPageA k m1 xs s1)
       \<and> (stopReasonA (scanPageA k m2 xs s2) = None \<longrightarrow>
            simRel (scanPageA k m1 xs s1) (scanPageA k m2 xs s2))"
  using assms
proof (induction xs arbitrary: s1 s2)
  case Nil
  then show ?case by (simp add: simRel_def)
next
  case (Cons x xs)
  let ?s1 = "scanStep k m1 x s1" and ?s2 = "scanStep k m2 x s2"
  have ex: "m1 (item_id x) \<noteq> None \<longrightarrow> m2 (item_id x) \<noteq> None"
    and exs: "\<forall>y \<in> set xs. m1 (item_id y) \<noteq> None \<longrightarrow> m2 (item_id y) \<noteq> None"
    using Cons.prems(1) by auto
  have cl: "oldClosed k xs" and tail: "createdOld k x \<longrightarrow> (\<forall>y \<in> set xs. createdOld k y)"
    using Cons.prems(3) by auto
  have rel': "simRel ?s1 ?s2" using Cons.prems(2) ex by (auto simp: simRel_def)
  have items: "passAItems ?s2 = passAItems ?s1" using rel' by (simp add: simRel_def)
  have ce: "consecutiveExisting ?s1 \<le> consecutiveExisting ?s2" using rel' by (simp add: simRel_def)
  show ?case
  proof (cases "createdOld k x \<and> hitsStop k \<le> consecutiveExisting ?s2")
    case True
    then have r2: "scanPageA k m2 (x # xs) s2 = ?s2\<lparr>stopReasonA := Some timeWindowStop\<rparr>"
      by (rule scanPageA_stop_here)
    have "passAItems (scanPageA k m1 (x # xs) s1) = passAItems ?s1"
    proof (cases "createdOld k x \<and> hitsStop k \<le> consecutiveExisting ?s1")
      case True
      then have "scanPageA k m1 (x # xs) s1 = ?s1\<lparr>stopReasonA := Some timeWindowStop\<rparr>"
        by (rule scanPageA_stop_here)
      then show ?thesis by simp
    next
      case False
      then have "scanPageA k m1 (x # xs) s1 = scanPageA k m1 xs ?s1"
        by (rule scanPageA_go_on)
      moreover have "\<forall>y \<in> set xs. createdOld k y" using True tail by simp
      ultimately show ?thesis by (simp add: scan_old_noop)
    qed
    then show ?thesis unfolding r2 using items by simp
  next
    case False
    then have r2: "scanPageA k m2 (x # xs) s2 = scanPageA k m2 xs ?s2"
      by (rule scanPageA_go_on)
    have "\<not> (createdOld k x \<and> hitsStop k \<le> consecutiveExisting ?s1)" using False ce by auto
    then have r1: "scanPageA k m1 (x # xs) s1 = scanPageA k m1 xs ?s1"
      by (rule scanPageA_go_on)
    show ?thesis unfolding r1 r2 by (rule Cons.IH[OF exs rel' cl])
  qed
qed

lemma passAPage_result:
  assumes "passAPage w e k d pg st = Inr (stop, st')"
  obtains pageItems where
    "fetchRecentRaindrops w e (collId k) (perPageA k) pg = Inr pageItems"
    "st' = (let st1 = st\<lparr>pagesFetchedA := pagesFetchedA st + 1\<rparr>;
                st2 = scanPageA k (getPagesByRaindropIds d (map item_id pageItems)) pageItems st1
            in if pageItems = [] then st1\<lparr>stopReasonA := Some ''no-more-items''\<rparr>
               else if stopReasonA st2 \<noteq> None then st2
               else if int (length pageItems) < perPageA k
               then st2\<lparr>stopReasonA := Some ''short-final-page''\<rparr>
               else if limitQP k \<noteq> 0 \<and> limitQP k \<le> perPage k
               then st2\<lparr>stopReasonA := Some ''debug-limit''\<rparr>
               else st2)"
    "stop = (pageItems = []
        \<or> stopReasonA (scanPageA k (getPagesByRaindropIds d (map item_id pageItems)) pageItems
              (st\<lparr>pagesFetchedA := pagesFetchedA st + 1\<rparr>)) \<noteq> None
        \<or> int (length pageItems) < perPageA k
        \<or> (limitQP k \<noteq> 0 \<and> limitQP k \<le> perPage k))"
proof -
  from assms obtain pageItems where
    f: "fetchRecentRaindrops w e (collId k) (perPageA k) pg = Inr pageItems"
    unfolding passAPage_def by (auto split: sum.splits)
  show ?thesis
    by (rule that[OF f]) (use assms f in \<open>auto simp: passAPage_def Let_def split: if_splits\<close>)
qed

text \<open>Pages that hold only items older than the window add nothing.\<close>

lemma passAPage_old_noop:
  assumes "passAPage w e k d pg st = Inr (stop, st')"
    and "\<And>ys y. fetchRecentRaindrops w e (collId k) (perPageA k) pg = Inr ys \<Longrightarrow> y \<in> set ys
           \<Longrightarrow> createdOld k y"
  shows "passAItems st' = passAItems st"
proof -
  from assms(1) obtain pageItems where
    f: "fetchRecentRaindrops w e (collId k) (perPageA k) pg = Inr pageItems"
    and r: "st' = (let st1 = st\<lparr>pagesFetchedA := pagesFetchedA st + 1\<rparr>;
                st2 = scanPageA k (getPagesByRaindropIds d (map item_id pageItems)) pageItems st1
            in if pageItems = [] then st1\<lparr>stopReasonA := Some ''no-more-items''\<rparr>
               else if stopReasonA st2 \<noteq> None then st2
               else if int (length pageItems) < perPageA k
               then st2\<lparr>stopReasonA := Some ''short-final-page''\<rparr>
               else if limitQP k \<noteq> 0 \<and> limitQP k \<le> perPage k
               then st2\<lparr>stopReasonA := Some ''debug-limit''\<rparr>
               else st2)"
    by (rule passAPage_result)
  have "\<forall>y \<in> set pageItems. createdOld k y" using assms(2)[OF f] by blast
  then show ?thesis unfolding r by (simp add: Let_def scan_old_noop)
qed

lemma passALoop_old_noop:
  "passALoop w e k d pg st = Inr a \<Longrightarrow>
   (\<And>pg' ys y. pg \<le> pg' \<Longrightarrow> fetchRecentRaindrops w e (collId k) (perPageA k) pg' = Inr ys
        \<Longrightarrow> y \<in> set ys \<Longrightarrow> createdOld k y) \<Longrightarrow>
   passAItems a = passAItems st"
proof (induction w e k d pg st rule: passALoop.induct)
  case (1 w e k d pg st)
  show ?case
  proof (cases "int pg < maxPages k")
    case False
    then show ?thesis using "1.prems"(1) by (simp add: passALoop.simps)
  next
    case True
    from "1.prems"(1) True obtain stop st' where
      pgs: "passAPage w e k d pg st = Inr (stop, st')"
      and r: "if stop then a = st' else passALoop w e k d (pg + 1) st' = Inr a"
      by (subst (asm) passALoop.simps) (auto split: sum.splits if_splits)
    have here: "passAItems st' = passAItems st"
      by (rule passAPage_old_noop[OF pgs]) (rule "1.prems"(2)[of pg], simp_all)
    show ?thesis
    proof (cases stop)
      case True then show ?thesis using r here by simp
    next
      case False
      then have rec: "passALoop w e k d (pg + 1) st' = Inr a" using r by simp
      have "passAItems a = passAItems st'"
        by (rule "1.IH"[OF True pgs refl False rec]) (rule "1.prems"(2), simp_all)
      then show ?thesis using here by simp
    qed
  qed
qed

lemma page_sim:
  assumes pg1: "passAPage w e k d pg s1 = Inr (stop1, s1')"
    and rel: "simRel s1 s2"
    and ex: "\<And>ids n. n \<in> set ids \<Longrightarrow> getPagesByRaindropIds d ids n \<noteq> None \<Longrightarrow>
                getPagesByRaindropIds d1 ids n \<noteq> None"
    and ord: "windowOrdered w e k"
  shows "\<exists>stop2 s2'. passAPage w e k d1 pg s2 = Inr (stop2, s2')
      \<and> passAItems s2' = passAItems s1'
      \<and> (\<not> stop2 \<longrightarrow> \<not> stop1 \<and> simRel s1' s2')
      \<and> (stop2 \<and> \<not> stop1 \<longrightarrow>
           (\<forall>pg' ys. pg < pg' \<and> fetchRecentRaindrops w e (collId k) (perPageA k) pg' = Inr ys
              \<longrightarrow> (\<forall>y \<in> set ys. createdOld k y)))"
proof -
  from pg1 obtain pageItems where
    f: "fetchRecentRaindrops w e (collId k) (perPageA k) pg = Inr pageItems"
    and r1: "s1' = (let st1 = s1\<lparr>pagesFetchedA := pagesFetchedA s1 + 1\<rparr>;
                st2 = scanPageA k (getPagesByRaindropIds d (map item_id pageItems)) pageItems st1
            in if pageItems = [] then st1\<lparr>stopReasonA := Some ''no-more-items''\<rparr>
               else if stopReasonA st2 \<noteq> None then st2
               else if int (length pageItems) < perPageA k
               then st2\<lparr>stopReasonA := Some ''short-final-page''\<rparr>
               else if limitQP k \<noteq> 0 \<and> limitQP k \<le> perPage k
               then st2\<lparr>stopReasonA := Some ''debug-limit''\<rparr>
               else st2)"
    and st1: "stop1 = (pageItems = []
        \<or> stopReasonA (scanPageA k (getPagesByRaindropIds d (map item_id pageItems)) pageItems
              (s1\<lparr>pagesFetchedA := pagesFetchedA s1 + 1\<rparr>)) \<noteq> None
        \<or> int (length pageItems) < perPageA k
        \<or> (limitQP k \<noteq> 0 \<and> limitQP k \<le> perPage k))"
    by (rule passAPage_result)
  let ?a1 = "s1\<lparr>pagesFetchedA := pagesFetchedA s1 + 1\<rparr>"
  let ?a2 = "s2\<lparr>pagesFetchedA := pagesFetchedA s2 + 1\<rparr>"
  let ?m1 = "getPagesByRaindropIds d (map item_id pageItems)"
  let ?m2 = "getPagesByRaindropIds d1 (map item_id pageItems)"
  let ?b1 = "scanPageA k ?m1 pageItems ?a1"
  let ?b2 = "scanPageA k ?m2 pageItems ?a2"
  have exm: "\<forall>x \<in> set pageItems. ?m1 (item_id x) \<noteq> None \<longrightarrow> ?m2 (item_id x) \<noteq> None"
    using ex by simp
  have rela: "simRel ?a1 ?a2" using rel by (simp add: simRel_def)
  have cl: "oldClosed k pageItems"
    and later: "(\<exists>x \<in> set pageItems. createdOld k x) \<longrightarrow>
           (\<forall>pg' ys. pg < pg' \<and> fetchRecentRaindrops w e (collId k) (perPageA k) pg' = Inr ys
              \<longrightarrow> (\<forall>y \<in> set ys. createdOld k y))"
    using ord f unfolding windowOrdered_def by blast+
  note sim = scan_sim[OF exm rela cl]
  obtain stop2 s2' where p2: "passAPage w e k d1 pg s2 = Inr (stop2, s2')"
    using f by (cases "passAPage w e k d1 pg s2") (auto simp: passAPage_def Let_def split: if_splits)
  from p2 obtain pageItems' where
    f': "fetchRecentRaindrops w e (collId k) (perPageA k) pg = Inr pageItems'"
    and r2': "s2' = (let st1 = s2\<lparr>pagesFetchedA := pagesFetchedA s2 + 1\<rparr>;
                st2 = scanPageA k (getPagesByRaindropIds d1 (map item_id pageItems')) pageItems' st1
            in if pageItems' = [] then st1\<lparr>stopReasonA := Some ''no-more-items''\<rparr>
               else if stopReasonA st2 \<noteq> None then st2
               else if int (length pageItems') < perPageA k
               then st2\<lparr>stopReasonA := Some ''short-final-page''\<rparr>
               else if limitQP k \<noteq> 0 \<and> limitQP k \<le> perPage k
               then st2\<lparr>stopReasonA := Some ''debug-limit''\<rparr>
               else st2)"
    and st2': "stop2 = (pageItems' = []
        \<or> stopReasonA (scanPageA k (getPagesByRaindropIds d1 (map item_id pageItems')) pageItems'
              (s2\<lparr>pagesFetchedA := pagesFetchedA s2 + 1\<rparr>)) \<noteq> None
        \<or> int (length pageItems') < perPageA k
        \<or> (limitQP k \<noteq> 0 \<and> limitQP k \<le> perPage k))"
    by (rule passAPage_result)
  have same: "pageItems' = pageItems" using f f' by simp
  have items0: "passAItems s2 = passAItems s1" using rel by (simp add: simRel_def)
  have eq: "passAItems s2' = passAItems s1'"
  proof (cases "pageItems = []")
    case True
    then show ?thesis unfolding r1 r2' same using items0 by (simp add: Let_def)
  next
    case False
    have b: "passAItems ?b2 = passAItems ?b1" using sim by simp
    have "passAItems s2' = passAItems ?b2" unfolding r2' same using False by (simp add: Let_def)
    moreover have "passAItems s1' = passAItems ?b1" unfolding r1 using False by (simp add: Let_def)
    ultimately show ?thesis using b by simp
  qed
  have cont: "\<not> stop1 \<and> simRel s1' s2'" if "\<not> stop2"
  proof -
    from that have ne: "pageItems \<noteq> []" and s2n: "stopReasonA ?b2 = None"
      and ns: "\<not> int (length pageItems) < perPageA k"
      and nd: "\<not> (limitQP k \<noteq> 0 \<and> limitQP k \<le> perPage k)"
      unfolding st2' same by auto
    have relb: "simRel ?b1 ?b2" using sim s2n by simp
    then have s1n: "stopReasonA ?b1 = None" by (simp add: simRel_def)
    have "s1' = ?b1" unfolding r1 using ne s1n ns nd by (simp add: Let_def)
    moreover have "s2' = ?b2" unfolding r2' same using ne s2n ns nd by (simp add: Let_def)
    moreover have "\<not> stop1" unfolding st1 using ne s1n ns nd by simp
    ultimately show ?thesis using relb by simp
  qed
  have cut: "\<forall>pg' ys. pg < pg' \<and> fetchRecentRaindrops w e (collId k) (perPageA k) pg' = Inr ys
              \<longrightarrow> (\<forall>y \<in> set ys. createdOld k y)" if "stop2 \<and> \<not> stop1"
  proof -
    from that have "stopReasonA ?b2 \<noteq> None" unfolding st1 st2' same by auto
    moreover have "stopReasonA ?a2 = None" using rel by (simp add: simRel_def)
    ultimately have "\<exists>x \<in> set pageItems. createdOld k x" by (rule scan_stop_old[rotated])
    then show ?thesis using later by blast
  qed
  show ?thesis using p2 eq cont cut by blast
qed

lemma loop_sim:
  assumes "passALoop w e k d pg s1 = Inr a1" "simRel s1 s2"
    and "\<And>ids n. n \<in> set ids \<Longrightarrow> getPagesByRaindropIds d ids n \<noteq> None \<Longrightarrow>
                getPagesByRaindropIds d1 ids n \<noteq> None"
    and "windowOrdered w e k"
  shows "\<exists>a2. passALoop w e k d1 pg s2 = Inr a2 \<and> passAItems a2 = passAItems a1"
  using assms
proof (induction w e k d pg s1 arbitrary: s2 rule: passALoop.induct)
  case (1 w e k d pg s1)
  show ?case
  proof (cases "int pg < maxPages k")
    case False
    then have "a1 = s1" using "1.prems"(1) by (simp add: passALoop.simps)
    moreover have "passALoop w e k d1 pg s2 = Inr s2" using False by (simp add: passALoop.simps)
    ultimately show ?thesis using "1.prems"(2) by (simp add: simRel_def)
  next
    case True
    from "1.prems"(1) True obtain stop1 s1' where
      pgs: "passAPage w e k d pg s1 = Inr (stop1, s1')"
      and r: "if stop1 then a1 = s1' else passALoop w e k d (pg + 1) s1' = Inr a1"
      by (subst (asm) passALoop.simps) (auto split: sum.splits if_splits)
    from page_sim[OF pgs "1.prems"(2,3,4)] obtain stop2 s2' where
      p2: "passAPage w e k d1 pg s2 = Inr (stop2, s2')"
      and eq: "passAItems s2' = passAItems s1'"
      and cont: "\<not> stop2 \<longrightarrow> \<not> stop1 \<and> simRel s1' s2'"
      and cut: "stop2 \<and> \<not> stop1 \<longrightarrow>
           (\<forall>pg' ys. pg < pg' \<and> fetchRecentRaindrops w e (collId k) (perPageA k) pg' = Inr ys
              \<longrightarrow> (\<forall>y \<in> set ys. createdOld k y))"
      by blast
    show ?thesis
    proof (cases stop2)
      case True
      then have l2: "passALoop w e k d1 pg s2 = Inr s2'"
        using p2 \<open>int pg < maxPages k\<close> by (subst passALoop.simps) simp
      have "passAItems a1 = passAItems s1'"
      proof (cases stop1)
        case True then show ?thesis using r by simp
      next
        case False
        then have rec: "passALoop w e k d (pg + 1) s1' = Inr a1" using r by simp
        have late: "\<forall>pg' ys. pg < pg' \<and>
              fetchRecentRaindrops w e (collId k) (perPageA k) pg' = Inr ys
              \<longrightarrow> (\<forall>y \<in> set ys. createdOld k y)"
          using cut True False by simp
        show ?thesis
        proof (rule passALoop_old_noop[OF rec])
          fix pg' ys y
          assume "pg + 1 \<le> pg'"
            and "fetchRecentRaindrops w e (collId k) (perPageA k) pg' = Inr ys" and "y \<in> set ys"
          moreover from this have "pg < pg'" by simp
          ultimately show "createdOld k y" using late by blast
        qed
      qed
      then show ?thesis using l2 eq by simp
    next
      case False
      then have ns1: "\<not> stop1" and rel': "simRel s1' s2'" using cont by auto
      then have rec: "passALoop w e k d (pg + 1) s1' = Inr a1" using r by simp
      have "\<exists>a2. passALoop w e k d1 (pg + 1) s2' = Inr a2 \<and> passAItems a2 = passAItems a1"
        by (rule "1.IH"[OF True pgs refl ns1 rec rel' "1.prems"(3,4)])
      moreover have "passALoop w e k d1 pg s2 = passALoop w e k d1 (pg + 1) s2'"
        using p2 False \<open>int pg < maxPages k\<close> by (subst passALoop.simps) simp
      ultimately show ?thesis by simp
    qed
  qed
qed

section \<open>What the scans reach\<close>

lemma foldl_items_keys:
  "keysOf (foldl (\<lambda>m it. mapSet (item_id it) it m) m xs) = keysOf m \<union> item_id ` set xs"
  by (induction xs arbitrary: m) auto

lemma passBPage_result:
  assumes "passBPage w e k q pg acc = Inr (stop, acc')"
  obtains items where "fetchRaindropsBySearch w e (collId k) q (perPage k) pg = Inr items"
    "keysOf (fst acc') = keysOf (fst acc) \<union> item_id ` set items"
    "stop = (\<not> fullPage (perPage k) items)"
proof -
  from assms obtain items where
    f: "fetchRaindropsBySearch w e (collId k) q (perPage k) pg = Inr items"
    unfolding passBPage_def by (auto split: sum.splits)
  show ?thesis
    by (rule that[OF f])
       (use assms f in \<open>auto simp: passBPage_def Let_def fullPage_def foldl_items_keys
          split: if_splits\<close>)
qed

lemma passBLoop_mono:
  "passBLoop w e k q pg acc = Inr b \<Longrightarrow> keysOf (fst acc) \<subseteq> keysOf (fst b)"
proof (induction w e k q pg acc rule: passBLoop.induct)
  case (1 w e k q pg acc)
  show ?case
  proof (cases "int pg < maxPages k")
    case False
    then show ?thesis using "1.prems" by (simp add: passBLoop.simps)
  next
    case True
    from "1.prems"(1) True obtain stop acc' where
      pg: "passBPage w e k q pg acc = Inr (stop, acc')"
      and r: "if stop then b = acc' else passBLoop w e k q (pg + 1) acc' = Inr b"
      by (subst (asm) passBLoop.simps) (auto split: sum.splits if_splits)
    from pg have here: "keysOf (fst acc) \<subseteq> keysOf (fst acc')"
      by (rule passBPage_result) simp
    show ?thesis
    proof (cases stop)
      case True then show ?thesis using r here by simp
    next
      case False
      then have "keysOf (fst acc') \<subseteq> keysOf (fst b)" using "1.IH"[OF True pg refl False] r by simp
      then show ?thesis using here by blast
    qed
  qed
qed

lemma passBLoop_reach:
  "passBLoop w e k q p0 acc = Inr b \<Longrightarrow> p0 \<le> pg \<Longrightarrow> int pg < maxPages k \<Longrightarrow>
   (\<And>p xs. p0 \<le> p \<Longrightarrow> p < pg \<Longrightarrow> fetchRaindropsBySearch w e (collId k) q (perPage k) p = Inr xs
       \<Longrightarrow> fullPage (perPage k) xs) \<Longrightarrow>
   fetchRaindropsBySearch w e (collId k) q (perPage k) pg = Inr items \<Longrightarrow> item \<in> set items \<Longrightarrow>
   item_id item \<in> keysOf (fst b)"
proof (induction w e k q p0 acc rule: passBLoop.induct)
  case (1 w e k q p0 acc)
  have inb: "int p0 < maxPages k" using "1.prems"(2,3) by simp
  from "1.prems"(1) inb obtain stop acc' where
    pgs: "passBPage w e k q p0 acc = Inr (stop, acc')"
    and r: "if stop then b = acc' else passBLoop w e k q (p0 + 1) acc' = Inr b"
    by (subst (asm) passBLoop.simps) (auto split: sum.splits if_splits)
  from pgs obtain xs where
    f: "fetchRaindropsBySearch w e (collId k) q (perPage k) p0 = Inr xs"
    and keys: "keysOf (fst acc') = keysOf (fst acc) \<union> item_id ` set xs"
    and st: "stop = (\<not> fullPage (perPage k) xs)"
    by (rule passBPage_result)
  have mono: "keysOf (fst acc') \<subseteq> keysOf (fst b)"
  proof (cases stop)
    case True then show ?thesis using r by simp
  next
    case False
    then show ?thesis using r passBLoop_mono by simp
  qed
  show ?case
  proof (cases "p0 = pg")
    case True
    then have "xs = items" using f "1.prems"(5) by simp
    then show ?thesis using keys mono "1.prems"(6) by auto
  next
    case False
    then have lt: "p0 < pg" using "1.prems"(2) by simp
    then have "fullPage (perPage k) xs" using "1.prems"(4)[OF _ _ f] by simp
    then have ns: "\<not> stop" using st by simp
    then have rec: "passBLoop w e k q (p0 + 1) acc' = Inr b" using r by simp
    show ?thesis
    proof (rule "1.IH"[OF inb pgs refl ns rec _ "1.prems"(3) _ "1.prems"(5,6)])
      show "p0 + 1 \<le> pg" using lt by simp
    next
      fix p ys
      assume "p0 + 1 \<le> p" "p < pg" "fetchRaindropsBySearch w e (collId k) q (perPage k) p = Inr ys"
      then show "fullPage (perPage k) ys" using "1.prems"(4)[of p ys] by simp
    qed
  qed
qed

lemma scan_keeps_ordered:
  "item \<in> set xs \<Longrightarrow> \<not> createdOld k item \<Longrightarrow> oldClosed k xs \<Longrightarrow>
   item_id item \<in> keysOf (passAItems (scanPageA k m xs st))"
proof (induction xs arbitrary: st)
  case Nil then show ?case by simp
next
  case (Cons x xs)
  have nx: "\<not> createdOld k x"
  proof
    assume o: "createdOld k x"
    then have "\<forall>y \<in> set xs. createdOld k y" using Cons.prems(3) by simp
    then show False using o Cons.prems(1,2) by auto
  qed
  then have eq: "scanPageA k m (x # xs) st = scanPageA k m xs (scanStep k m x st)"
    by (intro scanPageA_go_on) simp
  show ?case
  proof (cases "item = x")
    case True
    then have "item_id item \<in> keysOf (passAItems (scanStep k m x st))" using nx by simp
    then show ?thesis
      using scanPageA_keys_mono[of "scanStep k m x st" k m xs] unfolding eq by blast
  next
    case False
    then have "item \<in> set xs" using Cons.prems(1) by simp
    moreover have "oldClosed k xs" using Cons.prems(3) by simp
    ultimately show ?thesis unfolding eq using Cons.prems(2) by (intro Cons.IH)
  qed
qed

lemma passAPage_mono:
  assumes "passAPage w e k d pg st = Inr (stop, st')"
  shows "keysOf (passAItems st) \<subseteq> keysOf (passAItems st')"
proof -
  from assms obtain pageItems where
    r: "st' = (let st1 = st\<lparr>pagesFetchedA := pagesFetchedA st + 1\<rparr>;
                st2 = scanPageA k (getPagesByRaindropIds d (map item_id pageItems)) pageItems st1
            in if pageItems = [] then st1\<lparr>stopReasonA := Some ''no-more-items''\<rparr>
               else if stopReasonA st2 \<noteq> None then st2
               else if int (length pageItems) < perPageA k
               then st2\<lparr>stopReasonA := Some ''short-final-page''\<rparr>
               else if limitQP k \<noteq> 0 \<and> limitQP k \<le> perPage k
               then st2\<lparr>stopReasonA := Some ''debug-limit''\<rparr>
               else st2)"
    by (rule passAPage_result)
  have "keysOf (passAItems (st\<lparr>pagesFetchedA := pagesFetchedA st + 1\<rparr>))
      \<subseteq> keysOf (passAItems (scanPageA k (getPagesByRaindropIds d (map item_id pageItems)) pageItems
             (st\<lparr>pagesFetchedA := pagesFetchedA st + 1\<rparr>)))"
    by (rule scanPageA_keys_mono)
  then show ?thesis unfolding r by (simp add: Let_def)
qed

lemma passALoop_mono:
  "passALoop w e k d pg st = Inr a \<Longrightarrow> keysOf (passAItems st) \<subseteq> keysOf (passAItems a)"
proof (induction w e k d pg st rule: passALoop.induct)
  case (1 w e k d pg st)
  show ?case
  proof (cases "int pg < maxPages k")
    case False
    then show ?thesis using "1.prems" by (simp add: passALoop.simps)
  next
    case True
    from "1.prems"(1) True obtain stop st' where
      pgs: "passAPage w e k d pg st = Inr (stop, st')"
      and r: "if stop then a = st' else passALoop w e k d (pg + 1) st' = Inr a"
      by (subst (asm) passALoop.simps) (auto split: sum.splits if_splits)
    have here: "keysOf (passAItems st) \<subseteq> keysOf (passAItems st')" using pgs by (rule passAPage_mono)
    show ?thesis
    proof (cases stop)
      case True then show ?thesis using r here by simp
    next
      case False
      then have "keysOf (passAItems st') \<subseteq> keysOf (passAItems a)"
        using "1.IH"[OF True pgs refl False] r by simp
      then show ?thesis using here by blast
    qed
  qed
qed

lemma passALoop_reach:
  "passALoop w e k d p0 st = Inr a \<Longrightarrow> stopReasonA st = None \<Longrightarrow> p0 \<le> pg \<Longrightarrow>
   int pg < maxPages k \<Longrightarrow> pg = p0 \<or> \<not> (limitQP k \<noteq> 0 \<and> limitQP k \<le> perPage k) \<Longrightarrow>
   (\<And>p xs. p0 \<le> p \<Longrightarrow> p < pg \<Longrightarrow> fetchRecentRaindrops w e (collId k) (perPageA k) p = Inr xs
       \<Longrightarrow> fullPage (perPageA k) xs \<and> (\<forall>x \<in> set xs. \<not> createdOld k x)) \<Longrightarrow>
   fetchRecentRaindrops w e (collId k) (perPageA k) pg = Inr items \<Longrightarrow> item \<in> set items \<Longrightarrow>
   \<not> createdOld k item \<Longrightarrow> oldClosed k items \<Longrightarrow>
   item_id item \<in> keysOf (passAItems a)"
proof (induction w e k d p0 st rule: passALoop.induct)
  case (1 w e k d p0 st)
  have inb: "int p0 < maxPages k" using "1.prems"(3,4) by simp
  from "1.prems"(1) inb obtain stop st' where
    pgs: "passAPage w e k d p0 st = Inr (stop, st')"
    and r: "if stop then a = st' else passALoop w e k d (p0 + 1) st' = Inr a"
    by (subst (asm) passALoop.simps) (auto split: sum.splits if_splits)
  from pgs obtain xs where
    f: "fetchRecentRaindrops w e (collId k) (perPageA k) p0 = Inr xs"
    and res: "st' = (let st1 = st\<lparr>pagesFetchedA := pagesFetchedA st + 1\<rparr>;
                st2 = scanPageA k (getPagesByRaindropIds d (map item_id xs)) xs st1
            in if xs = [] then st1\<lparr>stopReasonA := Some ''no-more-items''\<rparr>
               else if stopReasonA st2 \<noteq> None then st2
               else if int (length xs) < perPageA k
               then st2\<lparr>stopReasonA := Some ''short-final-page''\<rparr>
               else if limitQP k \<noteq> 0 \<and> limitQP k \<le> perPage k
               then st2\<lparr>stopReasonA := Some ''debug-limit''\<rparr>
               else st2)"
    and st: "stop = (xs = []
        \<or> stopReasonA (scanPageA k (getPagesByRaindropIds d (map item_id xs)) xs
              (st\<lparr>pagesFetchedA := pagesFetchedA st + 1\<rparr>)) \<noteq> None
        \<or> int (length xs) < perPageA k
        \<or> (limitQP k \<noteq> 0 \<and> limitQP k \<le> perPage k))"
    by (rule passAPage_result)
  let ?st1 = "st\<lparr>pagesFetchedA := pagesFetchedA st + 1\<rparr>"
  let ?st2 = "scanPageA k (getPagesByRaindropIds d (map item_id xs)) xs ?st1"
  have mono: "keysOf (passAItems st') \<subseteq> keysOf (passAItems a)"
  proof (cases stop)
    case True then show ?thesis using r by simp
  next
    case False
    then show ?thesis using r passALoop_mono by simp
  qed
  show ?case
  proof (cases "p0 = pg")
    case True
    then have same: "xs = items" using f "1.prems"(7) by simp
    have "item_id item \<in> keysOf (passAItems ?st2)"
      unfolding same using "1.prems"(8,9,10) by (rule scan_keeps_ordered)
    moreover have "xs \<noteq> []" using same "1.prems"(8) by auto
    ultimately have "item_id item \<in> keysOf (passAItems st')" unfolding res by (simp add: Let_def)
    then show ?thesis using mono by blast
  next
    case False
    then have lt: "p0 < pg" using "1.prems"(3) by simp
    have full: "fullPage (perPageA k) xs" and fresh: "\<forall>x \<in> set xs. \<not> createdOld k x"
      using "1.prems"(6)[OF _ lt f] by simp_all
    have nolim: "\<not> (limitQP k \<noteq> 0 \<and> limitQP k \<le> perPage k)" using "1.prems"(5) False by auto
    have s1: "stopReasonA ?st1 = None" using "1.prems"(2) by simp
    have s2: "stopReasonA ?st2 = None"
    proof (rule ccontr)
      assume "stopReasonA ?st2 \<noteq> None"
      with s1 have "\<exists>x \<in> set xs. createdOld k x" by (rule scan_stop_old)
      then show False using fresh by blast
    qed
    have ns: "\<not> stop" unfolding st using full s2 nolim by (simp add: fullPage_def)
    have st': "st' = ?st2" unfolding res using full s2 nolim by (simp add: Let_def fullPage_def)
    have n': "stopReasonA st' = None" using s2 st' by simp
    have rec: "passALoop w e k d (p0 + 1) st' = Inr a" using r ns by simp
    show ?thesis
    proof (rule "1.IH"[OF inb pgs refl ns rec n' _ "1.prems"(4) _ _ "1.prems"(7,8,9,10)])
      show "p0 + 1 \<le> pg" using lt by simp
    next
      show "pg = p0 + 1 \<or> \<not> (limitQP k \<noteq> 0 \<and> limitQP k \<le> perPage k)" using nolim by simp
    next
      fix p ys
      assume "p0 + 1 \<le> p" "p < pg" "fetchRecentRaindrops w e (collId k) (perPageA k) p = Inr ys"
      then show "fullPage (perPageA k) ys \<and> (\<forall>x \<in> set ys. \<not> createdOld k x)"
        using "1.prems"(6)[of p ys] by simp
    qed
  qed
qed

lemma syncKnobs_supplied:
  assumes "syncKnobs w e req = Inr k" "getQP (q_limit req) = Some s" "s \<noteq> []"
    "parseInt s = Some lmt"
  shows "limitQP k = max 1 (min 500 lmt)"
  using assms unfolding syncKnobs_def
  by (auto simp: Let_def toIntInRange_def split: option.splits if_splits)

lemma withinListing_reach:
  assumes pa: "passALoop w e k d 0 initPassA = Inr a"
    and ord: "windowOrdered w e k" and inl: "withinListing w e k pg item"
    and fresh: "\<not> createdOld k item"
  shows "item_id item \<in> keysOf (passAItems a)"
proof -
  from inl obtain items where
    f: "fetchRecentRaindrops w e (collId k) (perPageA k) pg = Inr items" and mem: "item \<in> set items"
    by (auto simp: withinListing_def split: sum.splits)
  have budget: "int pg < maxPages k" and lim: "pg = 0 \<or> perPage k < limitQP k"
    using inl by (simp_all add: withinListing_def)
  have full: "fullPage (perPageA k) xs"
    if "p < pg" "fetchRecentRaindrops w e (collId k) (perPageA k) p = Inr xs" for p xs
    using inl that by (auto simp: withinListing_def split: sum.splits)
  have cl: "oldClosed k items" using ord f unfolding windowOrdered_def by blast
  have before: "\<forall>x \<in> set xs. \<not> createdOld k x"
    if "p < pg" "fetchRecentRaindrops w e (collId k) (perPageA k) p = Inr xs" for p xs
  proof (rule ccontr)
    assume "\<not> (\<forall>x \<in> set xs. \<not> createdOld k x)"
    then have "\<exists>x \<in> set xs. createdOld k x" by blast
    then have "\<forall>y \<in> set items. createdOld k y"
      using ord that f unfolding windowOrdered_def by blast
    then show False using mem fresh by blast
  qed
  show ?thesis
  proof (rule passALoop_reach[OF pa _ _ budget _ _ f mem fresh cl])
    show "stopReasonA initPassA = None" by (simp add: initPassA_def)
  next
    show "0 \<le> pg" by simp
  next
    show "pg = 0 \<or> \<not> (limitQP k \<noteq> 0 \<and> limitQP k \<le> perPage k)" using lim by auto
  next
    fix p xs
    assume "0 \<le> p" "p < pg" "fetchRecentRaindrops w e (collId k) (perPageA k) p = Inr xs"
    then show "fullPage (perPageA k) xs \<and> (\<forall>x \<in> set xs. \<not> createdOld k x)"
      using full before by blast
  qed
qed

lemma withinSearch_reach:
  assumes pb: "passBLoop w e k q 0 acc = Inr b" and ins: "withinSearch w e k q pg item"
  shows "item_id item \<in> keysOf (fst b)"
proof -
  from ins obtain items where
    f: "fetchRaindropsBySearch w e (collId k) q (perPage k) pg = Inr items" and mem: "item \<in> set items"
    by (auto simp: withinSearch_def split: sum.splits)
  have budget: "int pg < maxPages k" using ins by (simp add: withinSearch_def)
  have full: "fullPage (perPage k) xs"
    if "p < pg" "fetchRaindropsBySearch w e (collId k) q (perPage k) p = Inr xs" for p xs
    using ins that by (auto simp: withinSearch_def split: sum.splits)
  show ?thesis
    by (rule passBLoop_reach[OF pb _ budget _ f mem]) (use full in auto)
qed

section \<open>A later run over candidates already evaluated\<close>

lemma oldClosed_fresh: "\<forall>x \<in> set xs. \<not> createdOld k x \<Longrightarrow> oldClosed k xs"
  by (induction xs) simp_all

lemma windowOrdered_fresh:
  assumes "\<And>pg xs x. fetchRecentRaindrops w e (collId k) (perPageA k) pg = Inr xs \<Longrightarrow> x \<in> set xs
      \<Longrightarrow> \<not> createdOld k x"
  shows "windowOrdered w e k"
  unfolding windowOrdered_def using assms oldClosed_fresh by blast

lemma resolveTitle_transfer:
  assumes "getCollection w' = getCollection w" "collId k' = collId k"
    and "resolveTitle w e k it = Inr t"
  shows "\<exists>t'. resolveTitle w' e k' it = Inr t'"
proof -
  have g: "getCollectionTitleById w' e key = getCollectionTitleById w e key" for key
    unfolding getCollectionTitleById_def assms(1) by (rule refl)
  show ?thesis
    using assms(2,3) unfolding resolveTitle_def g
    by (auto split: option.splits sum.splits if_splits)
qed
section \<open>The claims\<close>




text \<open>
  C2. The caller-supplied cap is meant to act only when the caller supplies a limit. In the
  code the limit is read with the default 50, so a request without \<open>limit\<close> still runs with
  \<open>limitQP = 50\<close>: against 60 new items inside the window and the default configuration,
  pass A stops after its first page with the stop reason \<open>debug-limit\<close>, and of the 60
  candidates the searches bring in only 50 are evaluated.
\<close>

theorem C2_absent_limit_still_caps:
  "map_sum id (\<lambda>(r, d). (rep_stopReason r, rep_pagesFetchedA r, rep_candidatesB r,
                          rep_unionCandidates r, rep_created r))
     (syncHandler (demoWorld 1000 (map (\<lambda>n. demoItem (int n) (Instant 1000) None) [0..<60])
           (Response 404 None))
        demoEnv \<lparr>q_limit = Absent, q_dryRun = Absent\<rparr> [])
   = Inr (''debug-limit'', 1, 60, 50, 50)"
  by code_simp

text \<open>
  C3, as the code has it. The request supplies a limit, and the candidates of the run are
  fewer than that limit (read as the code reads it, between 1 and 500). An item created
  inside the window (\<open>since \<le> t\<close>) is then evaluated by the decision loop as soon as one scan
  reaches it within its page budget: the newest-first listing of pass A returns it on a page
  below \<open>MAX_PAGES\<close> that follows only full pages (the first page when the limit does not
  exceed \<open>PER_PAGE\<close>), or one of the two searches of pass B returns it on such a page.
\<close>

theorem C3_window_completeness:
  assumes "syncHandler w e req d = Inr (rep, d')" and "syncKnobs w e req = Inr k"
    and "getQP (q_limit req) = Some s" "s \<noteq> []" "parseInt s = Some lmt"
    and "int (rep_unionCandidates rep) < max 1 (min 500 lmt)"
    and "getTime (created item) = Some t" "since k \<le> t"
    and "windowOrdered w e k \<and> withinListing w e k pg item
         \<or> withinSearch w e k (LastUpdateAfter (sinceDateOnly k)) pg item
         \<or> withinSearch w e k (CreatedAfter (sinceDateOnly k)) pg item"
  shows "item_id item \<in> set (evaluatedIds rep)"
proof -
  have run: "syncRun w e k d = Inr (rep, d')" using assms(1,2) by (simp add: syncHandler_def)
  from run obtain a b1 b u where
    pa: "passALoop w e k d 0 initPassA = Inr a"
    and pb1: "passBLoop w e k (LastUpdateAfter (sinceDateOnly k)) 0 ([], 0) = Inr b1"
    and pb: "passBLoop w e k (CreatedAfter (sinceDateOnly k)) 0 b1 = Inr b"
    and loop: "upsertLoop w e k (getPagesByRaindropIds d
        (map item_id (candidateList k (unionCandidates (passAItems a) (fst b)))))
        (candidateList k (unionCandidates (passAItems a) (fst b))) (initUpsert d) = Inr u"
    and rep: "rep = syncReport k a b (candidateList k (unionCandidates (passAItems a) (fst b))) u"
    by (rule syncRun_parts)
  let ?un = "unionCandidates (passAItems a) (fst b)"
  have wa: "wfMap (passAItems a)" using pa by (rule passALoop_wf) (simp add: initPassA_def)
  have "wfMap (fst b1)" using pb1 by (rule passBLoop_wf) simp
  then have wb: "wfMap (fst b)" using pb by (rule passBLoop_wf[rotated])
  have wu: "wfMap ?un" using wa wb by (rule wfMap_union)
  have notold: "\<not> createdOld k item" using assms(7,8) by (simp add: createdOld_def)
  have cap: "limitQP k = max 1 (min 500 lmt)" using assms(2-5) by (rule syncKnobs_supplied)
  have "item_id item \<in> keysOf (passAItems a) \<union> keysOf (fst b)"
    using assms(9)
  proof (elim disjE conjE)
    assume "windowOrdered w e k" "withinListing w e k pg item"
    then show ?thesis using withinListing_reach[OF pa _ _ notold] by simp
  next
    assume "withinSearch w e k (LastUpdateAfter (sinceDateOnly k)) pg item"
    then have "item_id item \<in> keysOf (fst b1)" using withinSearch_reach[OF pb1] by simp
    then show ?thesis using passBLoop_mono[OF pb] by blast
  next
    assume "withinSearch w e k (CreatedAfter (sinceDateOnly k)) pg item"
    then show ?thesis using withinSearch_reach[OF pb] by simp
  qed
  then have "item_id item \<in> keysOf ?un" using unionCandidates_keys[OF wa wb] by simp
  then obtain v where v: "(item_id item, v) \<in> set ?un" by (auto simp: keysOf_def)
  then have idv: "item_id v = item_id item" using wu by (auto simp: wfMap_def)
  have "candidateList k ?un = map snd ?un"
    using assms(6) cap by (intro candidateList_all) (simp add: rep syncReport_def)
  moreover have "v \<in> snd ` set ?un" using v by force
  ultimately have "v \<in> set (candidateList k ?un)" by simp
  from upsertLoop_evaluates[OF loop this] idv show ?thesis
    by (auto simp: evaluatedIds_def rep syncReport_def split: if_splits)
qed

text \<open>An instance: a limit of 500, and an item the created-since search returns.\<close>

theorem C3_witness:
  "\<exists>rep d'. syncHandler (searchWorld 8817300000 [demoItem 5 (Instant 8730000000) None]) demoEnv
               \<lparr>q_limit = Single ''500'', q_dryRun = Absent\<rparr> [] = Inr (rep, d')
     \<and> 5 \<in> set (evaluatedIds rep)"
proof -
  let ?it = "demoItem 5 (Instant 8730000000) None"
  let ?w = "searchWorld 8817300000 [?it]"
  let ?req = "\<lparr>q_limit = Single ''500'', q_dryRun = Absent\<rparr>"
  let ?run = "syncHandler ?w demoEnv ?req []"
  have ev: "map_sum id (\<lambda>(r, d). rep_unionCandidates r) ?run = Inr 1" by code_simp
  then obtain rep d' where run: "?run = Inr (rep, d')" and n: "rep_unionCandidates rep = 1"
    by (cases ?run) auto
  have kk: "map_sum id (\<lambda>k. (since k, sinceDateOnly k, collId k, perPage k, maxPages k))
      (syncKnobs ?w demoEnv ?req) = Inr (8643600000, 100, ''7'', 50, 10)" by code_simp
  then obtain k where k: "syncKnobs ?w demoEnv ?req = Inr k"
    and kv: "since k = 8643600000" "sinceDateOnly k = 100" "collId k = ''7''" "perPage k = 50"
      "maxPages k = 10"
    by (cases "syncKnobs ?w demoEnv ?req") auto
  have q: "getQP (q_limit ?req) = Some ''500''" "''500'' \<noteq> []" by simp_all
  have p: "parseInt ''500'' = Some 500" by code_simp
  have c: "int (rep_unionCandidates rep) < max 1 (min 500 500)" using n by simp
  have f: "fetchRaindropsBySearch ?w demoEnv ''7'' (CreatedAfter 100) 50 0 = Inr [?it]"
    by code_simp
  have ws: "withinSearch ?w demoEnv k (CreatedAfter (sinceDateOnly k)) 0 ?it"
    using f by (simp add: withinSearch_def kv)
  have tm: "getTime (created ?it) = Some 8730000000" "since k \<le> 8730000000"
    by (simp_all add: demoItem_def kv)
  have "item_id ?it = 5" by (simp add: demoItem_def)
  with C3_window_completeness[OF run k q p c tm disjI2[OF disjI2[OF ws]]] run
  show ?thesis by auto
qed

text \<open>
  The claim as stated fails beyond the page budget and beyond the cap the caller supplies.
  With \<open>MAX_PAGES = 1\<close>, \<open>PER_PAGE = 2\<close> and the largest limit, three items created inside the
  window are in the Source, the third is on the second page of the listing and of the
  searches, and only the first two are evaluated. With the default configuration and
  \<open>limit=1\<close>, two items created inside the window are both candidates and only the first is
  evaluated.
\<close>

theorem C3_counterexample:
  "map_sum id (\<lambda>(r, d). (rep_stopReason r, rep_pagesFetchedA r, evaluatedIds r))
     (syncHandler (demoWorld 1000 (map (\<lambda>n. demoItem n (Instant 1000) None) [0, 1, 2])
                     (Response 404 None))
        smallPagesEnv \<lparr>q_limit = Single ''500'', q_dryRun = Absent\<rparr> [])
     = Inr (''completed'', 1, [0, 1])
   \<and> fetchRecentRaindrops (demoWorld 1000 (map (\<lambda>n. demoItem n (Instant 1000) None) [0, 1, 2])
                              (Response 404 None)) smallPagesEnv ''7'' 2 1
       = Inr [demoItem 2 (Instant 1000) None]
   \<and> map_sum id since
       (syncKnobs (demoWorld 1000 (map (\<lambda>n. demoItem n (Instant 1000) None) [0, 1, 2])
                     (Response 404 None))
          smallPagesEnv \<lparr>q_limit = Single ''500'', q_dryRun = Absent\<rparr>)
       = Inr (- 173699000)
   \<and> map_sum id (\<lambda>(r, d). (rep_candidatesB r, rep_unionCandidates r, evaluatedIds r))
       (syncHandler (demoWorld 1000 (map (\<lambda>n. demoItem n (Instant 1000) None) [0, 1])
                       (Response 404 None))
          demoEnv \<lparr>q_limit = Single ''1'', q_dryRun = Absent\<rparr> [])
       = Inr (2, 1, [0])"
  by code_simp

text \<open>
  C4. In a real run, for a candidate whose row is found and unlocked, with the stored
  timestamp \<open>t0\<close> and the item's timestamp \<open>t1\<close>, which is its last-modified timestamp, or its
  creation timestamp when the last-modified one is absent or empty: the item is among the
  updated identifiers exactly when \<open>t0 < t1\<close>; otherwise the row is left as it was and the
  item is reported as already existing; the stored timestamp after the run is the larger of
  the two, so it never decreases.
\<close>

theorem C4_update_iff_strictly_newer:
  assumes "syncRun w e k d = Inr (rep, d')" "\<not> dryRun k"
    and "syncCandidates w e k d = Inr (a, b, cands)" "item \<in> set cands"
    and "getPagesByRaindropIds d (map item_id cands) (item_id item) = Some found"
    and "\<not> locked found"
    and "raindropLastUpdate found = Some (Instant t0)"
    and "lastUpdate item = Some (Instant t1)
         \<or> (lastUpdate item = None \<or> lastUpdate item = Some Empty) \<and> created item = Instant t1"
  shows "(\<exists>ids. rep_updatedIds rep = Some ids \<and> (item_id item \<in> set ids \<longleftrightarrow> t0 < t1))
       \<and> (\<not> t0 < t1 \<longrightarrow> d' ! pageId found = d ! pageId found
                           \<and> item_id item \<in> set (rep_alreadyExists rep))
       \<and> p_RaindropLastUpdate (d ! pageId found) = Some (Instant t0)
       \<and> p_RaindropLastUpdate (d' ! pageId found) = Some (Instant (max t0 t1))"
proof -
  let ?m = "getPagesByRaindropIds d (map item_id cands)"
  from assms(1,3) obtain u where
    loop: "upsertLoop w e k ?m cands (initUpsert d) = Inr u"
    and rep: "rep = syncReport k a b cands u" and d': "d' = db u"
    by (rule syncRun_unfold)
  have key: "itemLast item = Some (Instant t1)"
    using assms(8) by (auto simp: itemLast_def)
  have dist: "distinct (map item_id cands)" using assms(3) by (rule syncCandidates_distinct)
  have good: "\<And>n f. ?m n = Some f \<Longrightarrow> goodFound d n f" by (rule getPages_good)
  have upd: "isUpdate ?m item \<longleftrightarrow> t0 < t1"
    using assms(5-7) key by (simp add: isUpdate_def)
  have stored: "p_RaindropLastUpdate (d ! pageId found) = Some (Instant t0)"
    using good[OF assms(5)] assms(7) by (simp add: goodFound_def)
  have jd: "pageId found < length d" using good[OF assms(5)] by (simp add: goodFound_def)
  note pg = upsertLoop_page[OF loop good dist assms(4,5)]
  have 1: "\<exists>ids. rep_updatedIds rep = Some ids \<and> (item_id item \<in> set ids \<longleftrightarrow> t0 < t1)"
    using updatedIds_mem(1)[OF loop dist assms(4)] upd assms(2) by (simp add: rep syncReport_def)
  have 2: "\<not> t0 < t1 \<longrightarrow> d' ! pageId found = d ! pageId found
        \<and> item_id item \<in> set (rep_alreadyExists rep)"
    using pg upd updatedIds_mem(3)[OF loop dist assms(4)] assms(5)
    by (simp add: rep d' syncReport_def)
  have 3: "p_RaindropLastUpdate (d' ! pageId found) = Some (Instant (max t0 t1))"
  proof (cases "t0 < t1")
    case True
    then obtain ttl where "db u ! pageId found =
        updateFromRaindrop (wallClock w InUpdateFromRaindrop (pageId found)) (pageId found)
          item ttl d ! pageId found"
      using pg upd assms(2) by auto
    then show ?thesis using True jd key
      by (simp add: d' updateFromRaindrop_def pagesUpdate_nth dateOrNull_def max_def)
  next
    case False
    then show ?thesis using pg upd stored by (simp add: d' max_def)
  qed
  from 1 2 stored 3 show ?thesis by blast
qed

text \<open>An instance: a row stored at 1000 and an item last modified at 2000.\<close>

theorem C4_witness:
  "\<exists>rep d'. syncRun (demoWorld 5000 [demoItem 1 (Instant 500) (Some (Instant 2000))] (Response 404 None)) demoEnv
               (demoKnobs False) [demoPage 1 (Some (Instant 1000)) False] = Inr (rep, d')
     \<and> (\<exists>ids. rep_updatedIds rep = Some ids \<and> 1 \<in> set ids)
     \<and> p_RaindropLastUpdate (d' ! 0) = Some (Instant 2000)"
proof -
  let ?w = "demoWorld 5000 [demoItem 1 (Instant 500) (Some (Instant 2000))] (Response 404 None)"
  let ?d = "[demoPage 1 (Some (Instant 1000)) False]"
  let ?it = "demoItem 1 (Instant 500) (Some (Instant 2000))"
  let ?f = "\<lparr>pageId = 0, raindropLastUpdate = Some (Instant 1000), locked = False\<rparr>"
  have "\<not> isl (syncRun ?w demoEnv (demoKnobs False) ?d)" by code_simp
  then obtain rep d' where run: "syncRun ?w demoEnv (demoKnobs False) ?d = Inr (rep, d')"
    using sum_prod_cases by blast
  have "map_sum id (snd \<circ> snd) (syncCandidates ?w demoEnv (demoKnobs False) ?d) = Inr [?it]"
    by code_simp
  then obtain a b where c: "syncCandidates ?w demoEnv (demoKnobs False) ?d = Inr (a, b, [?it])"
    by (cases "syncCandidates ?w demoEnv (demoKnobs False) ?d") auto
  have f: "getPagesByRaindropIds ?d (map item_id [?it]) (item_id ?it) = Some ?f" by code_simp
  have il: "lastUpdate ?it = Some (Instant 2000)
      \<or> (lastUpdate ?it = None \<or> lastUpdate ?it = Some Empty) \<and> created ?it = Instant 2000"
    by (simp add: demoItem_def)
  have nd: "\<not> dryRun (demoKnobs False)" by code_simp
  have id1: "item_id ?it = 1" by code_simp
  from C4_update_iff_strictly_newer[OF run nd c _ f _ _ il, of 1000]
  show ?thesis using run id1 by simp
qed

text \<open>
  C5. The delete grace state machine, with a grace of 24 hours, deletion mode \<open>archive\<close> and
  an unlocked, unflagged row whose item leaves the Source at time \<open>D\<close>. The times are the
  readings of the clock when the row is reached. The run that reaches the row at \<open>D + 1h\<close>
  sets the flag and the detection timestamp \<open>D + 1h\<close> and does not archive. From there, a run
  that reaches the row before \<open>D + 25h\<close> with the item still gone leaves the row as it is and
  reports it as \<open>deleteDetected\<close>; a run that reaches it at \<open>D + 25h\<close> or later archives it;
  and if instead the item is back in the enumeration, that run clears the flag and the
  timestamp, and a later run that still finds the item leaves the row as it is, so it is
  not archived.
\<close>

theorem C5_delete_grace_state_machine:
  assumes knobs: "r_graceHours k = 24" "r_deleteMode k = ''archive''" "\<not> r_dryRun k"
    and page: "j < length d" "\<not> archived (d ! j)" "p_RaindropID (d ! j) = Some n"
      "\<not> p_Lock (d ! j)" "\<not> p_Deleted (d ! j)"
    and run1: "wallClock w1 AtFirstDetection j = D + 1 * 3600000"
      "reconcileRun w1 e k d = Inr t1"
      "enumLoop w1 e k 0 ([], 0) = Inr (ids1, f1)" "n \<notin> set ids1"
      "fetchRaindropDetail w1 e n = Inr det1" "\<not> (exists det1 \<and> removed det1 \<noteq> Some True)"
    and early: "wallClock w0 AtHoursSince j < D + 25 * 3600000"
      "reconcileRun w0 e k (r_db t1) = Inr t0"
      "enumLoop w0 e k 0 ([], 0) = Inr (ids0, f0)" "n \<notin> set ids0"
      "fetchRaindropDetail w0 e n = Inr det0" "\<not> (exists det0 \<and> removed det0 \<noteq> Some True)"
    and run2: "D + 25 * 3600000 \<le> wallClock w2 AtHoursSince j"
      "reconcileRun w2 e k (r_db t1) = Inr t2"
      "enumLoop w2 e k 0 ([], 0) = Inr (ids2, f2)" "n \<notin> set ids2"
      "fetchRaindropDetail w2 e n = Inr det2" "\<not> (exists det2 \<and> removed det2 \<noteq> Some True)"
    and run3: "reconcileRun w3 e k (r_db t1) = Inr t3"
      "enumLoop w3 e k 0 ([], 0) = Inr (ids3, f3)" "n \<in> set ids3"
    and run4: "reconcileRun w4 e k (r_db t3) = Inr t4"
      "enumLoop w4 e k 0 ([], 0) = Inr (ids4, f4)" "n \<in> set ids4"
  shows "p_Deleted (r_db t1 ! j) \<and> p_DeleteDetectedAt (r_db t1 ! j) = Some (Instant (D + 3600000))
       \<and> \<not> archived (r_db t1 ! j) \<and> n \<in> set (deleteDetected t1)
       \<and> r_db t0 ! j = r_db t1 ! j \<and> n \<in> set (deleteDetected t0)
       \<and> archived (r_db t2 ! j) \<and> n \<in> set (deleteArchivedNow t2)
       \<and> \<not> p_Deleted (r_db t3 ! j) \<and> p_DeleteDetectedAt (r_db t3 ! j) = None
       \<and> \<not> archived (r_db t3 ! j) \<and> n \<in> set (clearedFlags t3)
       \<and> r_db t4 ! j = r_db t3 ! j"
proof -
  let ?p1 = "r_db t1 ! j"
  have s1: "?p1 = (d ! j)\<lparr>p_Deleted := True,
            p_DeleteDetectedAt := Some (Instant (wallClock w1 AtFirstDetection j)),
            p_SyncedAt := Some (Instant (wallClock w1 InMarkDeleteDetected j)),
            p_Status := Some ''Archived''\<rparr>"
    and l1: "n \<in> set (deleteDetected t1)"
    using run_first_detection[OF run1(2) knobs(3) page(1-3) run1(3-6)] page(4,5) by auto
  have len1: "j < length (r_db t1)" using reconcileRun_length[OF run1(2)] page(1) by simp
  have p1: "\<not> archived ?p1" "p_RaindropID ?p1 = Some n" "\<not> p_Lock ?p1" "p_Deleted ?p1"
    "p_DeleteDetectedAt ?p1 = Some (Instant (D + 3600000))"
    using page run1(1) by (simp_all add: s1)
  have ingrace: "wallClock w0 AtHoursSince j - (D + 3600000) < r_graceHours k * 3600000"
    using knobs(1) early(1) by simp
  have s0: "r_db t0 ! j = ?p1" and l0: "n \<in> set (deleteDetected t0)"
    using run_within_grace[OF early(2) len1 p1(1,2) early(3-6) p1(4,5) ingrace] by auto
  have grace: "r_graceHours k * 3600000 \<le> wallClock w2 AtHoursSince j - (D + 3600000)"
    using knobs(1) run2(1) by simp
  have s2: "r_db t2 ! j = ?p1\<lparr>archived := True\<rparr>" and l2: "n \<in> set (deleteArchivedNow t2)"
    using run_archive_after_grace[OF run2(2) knobs(3) len1 p1(1,2) run2(3-6) p1(4,5) grace
        knobs(2) p1(3)] by auto
  have s3: "r_db t3 ! j = ?p1\<lparr>p_Deleted := False, p_DeleteDetectedAt := None,
                p_SyncedAt := Some (Instant (wallClock w3 InClearDeleteFlags j))\<rparr>"
    and l3: "n \<in> set (clearedFlags t3)"
    using run_present[OF run3(1) knobs(3) len1 p1(1,2) run3(2,3)] p1(4) by auto
  have len3: "j < length (r_db t3)" using reconcileRun_length[OF run3(1)] len1 by simp
  have p3: "\<not> archived (r_db t3 ! j)" "p_RaindropID (r_db t3 ! j) = Some n"
    "\<not> p_Deleted (r_db t3 ! j)" "p_DeleteDetectedAt (r_db t3 ! j) = None"
    using p1 by (simp_all add: s3)
  have s4: "r_db t4 ! j = r_db t3 ! j"
    using run_present[OF run4(1) knobs(3) len3 p3(1,2) run4(2,3)] p3(3) by auto
  show ?thesis using p1 l1 s0 l0 s2 l2 p3 l3 s4 by simp
qed

text \<open>The timeline with \<open>D = 0\<close> on a database of one row; the early run comes one
  millisecond before \<open>D + 25h\<close>.\<close>

theorem C5_witness:
  "\<exists>t1 t0 t2 t3 t4.
     reconcileRun (demoWorld 3600000 [] (Response 404 None)) demoEnv (demoRKnobs False)
       [demoPage 1 None False] = Inr t1
     \<and> reconcileRun (demoWorld 89999999 [] (Response 404 None)) demoEnv (demoRKnobs False)
         (r_db t1) = Inr t0
     \<and> reconcileRun (demoWorld 90000000 [] (Response 404 None)) demoEnv (demoRKnobs False)
         (r_db t1) = Inr t2
     \<and> reconcileRun (demoWorld 18000000 [demoItem 1 (Instant 500) None] (Response 404 None))
         demoEnv (demoRKnobs False) (r_db t1) = Inr t3
     \<and> reconcileRun (demoWorld 90000000 [demoItem 1 (Instant 500) None] (Response 404 None))
         demoEnv (demoRKnobs False) (r_db t3) = Inr t4
     \<and> p_Deleted (r_db t1 ! 0) \<and> p_DeleteDetectedAt (r_db t1 ! 0) = Some (Instant 3600000)
     \<and> \<not> archived (r_db t1 ! 0) \<and> \<not> archived (r_db t0 ! 0) \<and> archived (r_db t2 ! 0)
     \<and> \<not> p_Deleted (r_db t3 ! 0) \<and> \<not> archived (r_db t3 ! 0) \<and> \<not> archived (r_db t4 ! 0)"
proof -
  let ?k = "demoRKnobs False"
  let ?w1 = "demoWorld 3600000 [] (Response 404 None)"
  let ?w0 = "demoWorld 89999999 [] (Response 404 None)"
  let ?w2 = "demoWorld 90000000 [] (Response 404 None)"
  let ?w3 = "demoWorld 18000000 [demoItem 1 (Instant 500) None] (Response 404 None)"
  let ?w4 = "demoWorld 90000000 [demoItem 1 (Instant 500) None] (Response 404 None)"
  let ?d = "[demoPage 1 None False]"
  let ?t1 = "\<lparr>r_db = [detectedPage], moved = [], deleteDetected = [1], deleteArchivedNow = [],
     r_skippedLocked = [], clearedFlags = []\<rparr>"
  let ?t3 = "\<lparr>r_db = [clearedPage], moved = [], deleteDetected = [], deleteArchivedNow = [],
     r_skippedLocked = [], clearedFlags = [1]\<rparr>"
  let ?gone = "\<lparr>exists = False, removed = None, collectionId = None, detailLastUpdate = None\<rparr>"
  have k: "r_graceHours ?k = 24" "r_deleteMode ?k = ''archive''" "\<not> r_dryRun ?k"
    by (simp_all add: demoRKnobs_def)
  have pg: "0 < length ?d" "\<not> archived (?d ! 0)" "p_RaindropID (?d ! 0) = Some 1"
    "\<not> p_Lock (?d ! 0)" "\<not> p_Deleted (?d ! 0)"
    by (simp_all add: demoPage_def)
  have c1: "wallClock ?w1 AtFirstDetection 0 = 0 + 1 * 3600000"
    and c0: "wallClock ?w0 AtHoursSince 0 < 0 + 25 * 3600000"
    and c2: "0 + 25 * 3600000 \<le> wallClock ?w2 AtHoursSince 0"
    by (simp_all add: demoWorld_def)
  have r1: "reconcileRun ?w1 demoEnv ?k ?d = Inr ?t1" by code_simp
  have e1: "enumLoop ?w1 demoEnv ?k 0 ([], 0) = Inr ([], 1)" by code_simp
  have d1: "fetchRaindropDetail ?w1 demoEnv 1 = Inr ?gone" by code_simp
  have "\<not> isl (reconcileRun ?w0 demoEnv ?k (r_db ?t1))" by code_simp
  then obtain t0 where r0: "reconcileRun ?w0 demoEnv ?k (r_db ?t1) = Inr t0"
    by (cases "reconcileRun ?w0 demoEnv ?k (r_db ?t1)") auto
  have e0: "enumLoop ?w0 demoEnv ?k 0 ([], 0) = Inr ([], 1)" by code_simp
  have d0: "fetchRaindropDetail ?w0 demoEnv 1 = Inr ?gone" by code_simp
  have "\<not> isl (reconcileRun ?w2 demoEnv ?k (r_db ?t1))" by code_simp
  then obtain t2 where r2: "reconcileRun ?w2 demoEnv ?k (r_db ?t1) = Inr t2"
    by (cases "reconcileRun ?w2 demoEnv ?k (r_db ?t1)") auto
  have e2: "enumLoop ?w2 demoEnv ?k 0 ([], 0) = Inr ([], 1)" by code_simp
  have d2: "fetchRaindropDetail ?w2 demoEnv 1 = Inr ?gone" by code_simp
  have r3: "reconcileRun ?w3 demoEnv ?k (r_db ?t1) = Inr ?t3" by code_simp
  have e3: "enumLoop ?w3 demoEnv ?k 0 ([], 0) = Inr ([1], 1)" by code_simp
  have "\<not> isl (reconcileRun ?w4 demoEnv ?k (r_db ?t3))" by code_simp
  then obtain t4 where r4: "reconcileRun ?w4 demoEnv ?k (r_db ?t3) = Inr t4"
    by (cases "reconcileRun ?w4 demoEnv ?k (r_db ?t3)") auto
  have e4: "enumLoop ?w4 demoEnv ?k 0 ([], 0) = Inr ([1], 1)" by code_simp
  have ex: "\<not> (exists ?gone \<and> removed ?gone \<noteq> Some True)" by simp
  from C5_delete_grace_state_machine[OF k pg c1 r1 e1 _ d1 ex c0 r0 e0 _ d0 ex c2 r2 e2 _ d2 ex
      r3 e3 _ r4 e4]
  have "p_Deleted (r_db ?t1 ! 0) \<and> p_DeleteDetectedAt (r_db ?t1 ! 0) = Some (Instant (0 + 3600000))
       \<and> \<not> archived (r_db ?t1 ! 0) \<and> 1 \<in> set (deleteDetected ?t1)
       \<and> r_db t0 ! 0 = r_db ?t1 ! 0 \<and> 1 \<in> set (deleteDetected t0)
       \<and> archived (r_db t2 ! 0) \<and> 1 \<in> set (deleteArchivedNow t2)
       \<and> \<not> p_Deleted (r_db ?t3 ! 0) \<and> p_DeleteDetectedAt (r_db ?t3 ! 0) = None
       \<and> \<not> archived (r_db ?t3 ! 0) \<and> 1 \<in> set (clearedFlags ?t3)
       \<and> r_db t4 ! 0 = r_db ?t3 ! 0"
    by simp
  then show ?thesis using r1 r0 r2 r3 r4
    by (intro exI[of _ ?t1] exI[of _ t0] exI[of _ t2] exI[of _ ?t3] exI[of _ t4]) simp
qed

text \<open>
  C6, as the code has it. A row that is absent from the enumeration while the detail check
  reports \<open>exists\<close> and not \<open>removed\<close> is a moved row. In a dry run, or when the row is
  locked, the page is not written. Otherwise the run sets the collection to the title the
  Source gives for the collection the detail names (the empty text when there is none), sets
  the sync timestamp and, when the row was flagged deleted, also clears the flag and the
  detection timestamp; every other property stays. The flag is never set by this branch. The
  row is reported as \<open>moved\<close>, or as skipped when locked.
\<close>

theorem C6_moved_row_effect:
  assumes "reconcileRun w e k d = Inr t"
    and "j < length d" "\<not> archived (d ! j)" "p_RaindropID (d ! j) = Some n"
    and "enumLoop w e k 0 ([], 0) = Inr (ids, fetched)" "n \<notin> set ids"
    and "fetchRaindropDetail w e n = Inr det" "exists det" "removed det \<noteq> Some True"
  shows "(r_dryRun k \<or> p_Lock (d ! j) \<longrightarrow> r_db t ! j = d ! j)
       \<and> (\<not> r_dryRun k \<and> \<not> p_Lock (d ! j) \<longrightarrow>
            r_db t ! j =
              (if p_Deleted (d ! j)
               then (d ! j)\<lparr>p_Collection := titleOfMoved w det,
                      p_SyncedAt := Some (Instant (wallClock w InClearDeleteFlags j)),
                      p_Deleted := False, p_DeleteDetectedAt := None\<rparr>
               else (d ! j)\<lparr>p_Collection := titleOfMoved w det,
                      p_SyncedAt := Some (Instant (wallClock w InUpdateCollectionOnly j))\<rparr>))
       \<and> (p_Deleted (r_db t ! j) \<longrightarrow> p_Deleted (d ! j))
       \<and> (if p_Lock (d ! j) then n \<in> set (r_skippedLocked t) else n \<in> set (moved t))"
proof (cases "r_dryRun k \<or> p_Lock (d ! j)")
  case True
  from run_moved_idle[OF assms(1) True assms(2-9)] True show ?thesis by auto
next
  case False
  then have real: "\<not> r_dryRun k" and unl: "\<not> p_Lock (d ! j)" by auto
  from run_moved[OF assms(1) real assms(2-4) unl assms(5-9)] real unl show ?thesis
    by (cases "p_Deleted (d ! j)") auto
qed

text \<open>An instance: a flagged, unlocked row with the collection \<open>Old\<close> whose item moved to the
  collection \<open>Inbox\<close>.\<close>

theorem C6_witness:
  "\<exists>t. reconcileRun (demoWorld 5000 [] demoDetail) demoEnv (demoRKnobs False)
          [(flaggedPage 1 False 100)\<lparr>p_Collection := ''Old''\<rparr>] = Inr t
     \<and> r_db t ! 0 = (flaggedPage 1 False 100)\<lparr>p_Collection := ''Inbox'',
            p_SyncedAt := Some (Instant 5000), p_Deleted := False, p_DeleteDetectedAt := None\<rparr>
     \<and> 1 \<in> set (moved t)"
proof -
  let ?w = "demoWorld 5000 [] demoDetail"
  let ?d = "[(flaggedPage 1 False 100)\<lparr>p_Collection := ''Old''\<rparr>]"
  let ?det = "\<lparr>exists = True, removed = Some False, collectionId = Some 9, detailLastUpdate = None\<rparr>"
  have "\<not> isl (reconcileRun ?w demoEnv (demoRKnobs False) ?d)" by code_simp
  then obtain t where run: "reconcileRun ?w demoEnv (demoRKnobs False) ?d = Inr t"
    by (cases "reconcileRun ?w demoEnv (demoRKnobs False) ?d") auto
  have pg: "0 < length ?d" "\<not> archived (?d ! 0)" "p_RaindropID (?d ! 0) = Some 1"
    by (simp_all add: flaggedPage_def demoPage_def)
  have en: "enumLoop ?w demoEnv (demoRKnobs False) 0 ([], 0) = Inr ([], 1)" by code_simp
  have det: "fetchRaindropDetail ?w demoEnv 1 = Inr ?det" by code_simp
  have fl: "p_Deleted (?d ! 0)" "\<not> p_Lock (?d ! 0)" "\<not> r_dryRun (demoRKnobs False)"
    by (simp_all add: flaggedPage_def demoPage_def demoRKnobs_def)
  have ttl: "titleOfMoved ?w ?det = ''Inbox''" by code_simp
  have cl: "wallClock ?w InClearDeleteFlags 0 = 5000" by (simp add: demoWorld_def)
  from C6_moved_row_effect[OF run pg en _ det] fl cl ttl run show ?thesis by simp
qed

text \<open>
  The claim as stated fails on a row that was flagged deleted: besides the collection and
  the sync timestamp, the deleted flag and the detection timestamp change (they are
  cleared).
\<close>

theorem C6_counterexample:
  "p_Deleted (flaggedPage 1 False 100) \<and> p_DeleteDetectedAt (flaggedPage 1 False 100) = Some (Instant 100)
   \<and> map_sum id (\<lambda>t. (p_Deleted (r_db t ! 0), p_DeleteDetectedAt (r_db t ! 0), moved t, clearedFlags t))
       (reconcileHandler (demoWorld 5000 [] demoDetail) demoEnv Absent [flaggedPage 1 False 100])
     = Inr (False, None, [1], [1])"
  by code_simp

text \<open>
  C7, as the code has it. With an access token configured, a detail lookup whose response
  has a status outside 200..299 (404 included), or a success status without an item, gives
  \<open>exists = false\<close>: the row is handled exactly as with a 404 and the row step returns
  without an error.
\<close>

theorem C7_non_success_is_missing:
  assumes "RAINDROP_ACCESS_TOKEN e = Some tok" "tok \<noteq> []"
    and "getRaindrop w n = Response status body"
    and "\<not> ok status \<or> body = None"
    and "raindropId row = n"
  shows "fetchRaindropDetail w e n =
           Inr \<lparr>exists = False, removed = None, collectionId = None, detailLastUpdate = None\<rparr>
       \<and> reconcileRow w e k ids row st =
           reconcileRow (w\<lparr>getRaindrop := (getRaindrop w)(n := Response 404 None)\<rparr>) e k ids row st
       \<and> (\<exists>st'. reconcileRow w e k ids row st = Inr st')"
proof -
  let ?w = "w\<lparr>getRaindrop := (getRaindrop w)(n := Response 404 None)\<rparr>"
  let ?missing = "\<lparr>exists = False, removed = None, collectionId = None, detailLastUpdate = None\<rparr>"
  have tk: "getRaindropToken e = Inr tok" using assms(1,2) by (simp add: getRaindropToken_def)
  have 1: "fetchRaindropDetail w e n = Inr ?missing"
    using assms(3,4) tk by (auto simp: fetchRaindropDetail_def)
  have 2: "fetchRaindropDetail ?w e n = Inr ?missing"
    using tk by (simp add: fetchRaindropDetail_def)
  have 3: "reconcileRow w e k ids row st = reconcileRow ?w e k ids row st"
    using 1 2 assms(5) by (simp add: reconcileRow_def)
  have 4: "\<exists>st'. reconcileRow w e k ids row st = Inr st'"
    using 1 assms(5) by (simp add: reconcileRow_def Let_def)
  from 1 3 4 show ?thesis by blast
qed

text \<open>An instance with a 503.\<close>

theorem C7_witness:
  "fetchRaindropDetail (demoWorld 5000 [] (Response 503 None)) demoEnv 1 =
     Inr \<lparr>exists = False, removed = None, collectionId = None, detailLastUpdate = None\<rparr>
   \<and> (\<exists>st'. reconcileRow (demoWorld 5000 [] (Response 503 None)) demoEnv (demoRKnobs False) []
               (rowAt [demoPage 1 None False] 0 1) (initReconcile [demoPage 1 None False]) = Inr st')"
proof -
  let ?w = "demoWorld 5000 [] (Response 503 None)"
  have "RAINDROP_ACCESS_TOKEN demoEnv = Some ''tok''" "''tok'' \<noteq> []"
    "getRaindrop ?w 1 = Response 503 None" "\<not> ok 503 \<or> (None :: detail_item option) = None"
    "raindropId (rowAt [demoPage 1 None False] 0 1) = 1"
    by (simp_all add: demoEnv_def demoWorld_def)
  from C7_non_success_is_missing[OF this] show ?thesis by blast
qed

text \<open>
  The claim as stated fails for a lookup that throws: \<open>fetchRaindropDetail\<close> has no
  \<open>catch\<close>, so a rejected \<open>fetch\<close> reaches the handler's \<open>catch\<close> and the invocation ends
  with an error response.
\<close>

theorem C7_counterexample:
  "reconcileHandler (demoWorld 5000 [] Rejected) demoEnv Absent [demoPage 1 None False]
     = Inl FetchRejected"
  by code_simp

text \<open>
  C8. Dry-run parity. From the same Source and the same database, the dry run and the real
  run of the incremental sync compute the same candidates and either fail with the same
  error or succeed with the same classification (the preview lists of the dry run are the
  created and updated lists of the real run, the skipped and already-existing lists agree),
  and the dry run leaves the database as it was. The same holds for the reconciliation and
  its five classification lists.
\<close>

theorem C8_dry_run_parity:
  "syncCandidates w e (k\<lparr>dryRun := True\<rparr>) d = syncCandidates w e (k\<lparr>dryRun := False\<rparr>) d
   \<and> (case (syncRun w e (k\<lparr>dryRun := True\<rparr>) d, syncRun w e (k\<lparr>dryRun := False\<rparr>) d) of
         (Inl e1, Inl e2) \<Rightarrow> e1 = e2
       | (Inr (repd, dd), Inr (repr, dr)) \<Rightarrow> dd = d \<and> sameClassification repd repr
       | _ \<Rightarrow> False)
   \<and> (case (reconcileRun w e (rk\<lparr>r_dryRun := True\<rparr>) d,
             reconcileRun w e (rk\<lparr>r_dryRun := False\<rparr>) d) of
         (Inl e1, Inl e2) \<Rightarrow> e1 = e2
       | (Inr td, Inr tr) \<Rightarrow> r_db td = d \<and> sameLists td tr
       | _ \<Rightarrow> False)"
proof -
  have 1: "syncCandidates w e (k\<lparr>dryRun := True\<rparr>) d = syncCandidates w e (k\<lparr>dryRun := False\<rparr>) d"
    by simp
  have 2: "case (syncRun w e (k\<lparr>dryRun := True\<rparr>) d, syncRun w e (k\<lparr>dryRun := False\<rparr>) d) of
         (Inl e1, Inl e2) \<Rightarrow> e1 = e2
       | (Inr (repd, dd), Inr (repr, dr)) \<Rightarrow> dd = d \<and> sameClassification repd repr
       | _ \<Rightarrow> False"
  proof (cases "syncCandidates w e k d")
    case (Inl err)
    then show ?thesis by (simp add: syncRun_def)
  next
    case (Inr c)
    obtain a b cands where c: "c = (a, b, cands)" by (cases c) auto
    let ?m = "getPagesByRaindropIds d (map item_id cands)"
    have init: "sameOutcome (initUpsert d) (initUpsert d)"
      by (simp add: sameOutcome_def initUpsert_def)
    show ?thesis
      using upsertLoop_parity[OF init, of w e k ?m cands] Inr c
      by (auto simp: syncRun_def Let_def sameClassification_def sameOutcome_def syncReport_def
          initUpsert_def split: sum.splits)
  qed
  have 3: "case (reconcileRun w e (rk\<lparr>r_dryRun := True\<rparr>) d,
             reconcileRun w e (rk\<lparr>r_dryRun := False\<rparr>) d) of
         (Inl e1, Inl e2) \<Rightarrow> e1 = e2
       | (Inr td, Inr tr) \<Rightarrow> r_db td = d \<and> sameLists td tr
       | _ \<Rightarrow> False"
  proof (cases "enumLoop w e rk 0 ([], 0)")
    case (Inl err)
    then show ?thesis by (simp add: reconcileRun_def)
  next
    case (Inr r)
    obtain ids fetched where r: "r = (ids, fetched)" by (cases r) auto
    have init: "sameLists (initReconcile d) (initReconcile d)" by (simp add: sameLists_def)
    show ?thesis
      using reconcileLoop_parity[OF init, of w e rk ids "listAllNotionRows d"] Inr r
      by (auto simp: reconcileRun_def initReconcile_def split: sum.splits)
  qed
  from 1 2 3 show ?thesis by blast
qed

text \<open>
  C9, as the code has it. After a real run that succeeded on a database whose rows carry
  distinct identifiers, a later run against the same collection titles whose candidates were
  all evaluated by the first run finds each of them with a row that is locked or at least as
  new as the item: it succeeds, creates nothing, updates nothing and leaves the database as
  it is. A run over the same window against a listing that is newest first has exactly the
  candidates of the first run. The rows of the database still carry distinct identifiers
  after the run.
\<close>

theorem C9_second_run_is_idle:
  assumes run1: "syncRun w e k d = Inr (rep1, d1)" and real: "\<not> dryRun k"
    and rows: "distinct (rowIds d)"
    and c1: "syncCandidates w e k d = Inr (a1, b1, cands1)"
  shows "(getCollection w' = getCollection w \<and> collId k' = collId k \<and> \<not> dryRun k'
          \<and> syncCandidates w' e k' d1 = Inr (a2, b2, cands2) \<and> set cands2 \<subseteq> set cands1
          \<longrightarrow> (\<exists>rep2. syncRun w' e k' d1 = Inr (rep2, d1)
                \<and> rep_created rep2 = 0 \<and> rep_updated rep2 = 0
                \<and> rep_createdIds rep2 = Some [] \<and> rep_updatedIds rep2 = Some []))
       \<and> (windowOrdered w e k \<longrightarrow> (\<exists>a b. syncCandidates w e k d1 = Inr (a, b, cands1)))
       \<and> distinct (rowIds d1)"
proof -
  let ?m1 = "getPagesByRaindropIds d (map item_id cands1)"
  from run1 c1 obtain u1 where
    loop1: "upsertLoop w e k ?m1 cands1 (initUpsert d) = Inr u1"
    and d1: "d1 = db u1"
    by (rule syncRun_unfold)
  have dist1: "distinct (map item_id cands1)" using c1 by (rule syncCandidates_distinct)
  have dd1: "distinct (rowIds d1)" and sub: "set (rowIds d) \<subseteq> set (rowIds d1)"
    using run_rowIds_distinct[OF loop1 dist1 rows] by (auto simp: d1)
  have part1: "\<exists>rep2. syncRun w' e k' d1 = Inr (rep2, d1)
                \<and> rep_created rep2 = 0 \<and> rep_updated rep2 = 0
                \<and> rep_createdIds rep2 = Some [] \<and> rep_updatedIds rep2 = Some []"
    if h: "getCollection w' = getCollection w" "collId k' = collId k" "\<not> dryRun k'"
      "syncCandidates w' e k' d1 = Inr (a2, b2, cands2)" "set cands2 \<subseteq> set cands1"
  proof -
    let ?m2 = "getPagesByRaindropIds d1 (map item_id cands2)"
    have idle: "?m2 (item_id it) \<noteq> None \<and> \<not> isUpdate ?m2 it" if "it \<in> set cands2" for it
      unfolding d1
      by (rule second_lookup[OF loop1 real dist1 rows]) (use that h(5) in auto)
    have "\<forall>it \<in> set cands2. \<exists>t. resolveTitle w' e k' it = Inr t"
      using upsertLoop_resolves[OF loop1] resolveTitle_transfer[OF h(1,2)] h(5) by blast
    then obtain u2 where loop2: "upsertLoop w' e k' ?m2 cands2 (initUpsert d1) = Inr u2"
      using upsertLoop_total by blast
    have "\<forall>it \<in> set cands2. ?m2 (item_id it) \<noteq> None \<and> \<not> isUpdate ?m2 it" using idle by blast
    from upsertLoop_idle[OF loop2 this]
    have u2: "db u2 = d1" "createdCount u2 = 0" "updatedCount u2 = 0" "createdIds u2 = []"
      "updatedIds u2 = []"
      by (simp_all add: initUpsert_def)
    have run2: "syncRun w' e k' d1 = Inr (syncReport k' a2 b2 cands2 u2, d1)"
      using h(4) loop2 u2(1) by (simp add: syncRun_def Let_def)
    show ?thesis using run2 h(3) u2 by (simp add: syncReport_def)
  qed
  have part2: "\<exists>a b. syncCandidates w e k d1 = Inr (a, b, cands1)" if ord: "windowOrdered w e k"
  proof -
    from c1 obtain bm where
      pa1: "passALoop w e k d 0 initPassA = Inr a1"
      and pbm: "passBLoop w e k (LastUpdateAfter (sinceDateOnly k)) 0 ([], 0) = Inr bm"
      and pb: "passBLoop w e k (CreatedAfter (sinceDateOnly k)) 0 bm = Inr b1"
      and cs: "cands1 = candidateList k (unionCandidates (passAItems a1) (fst b1))"
      unfolding syncCandidates_def by (auto split: sum.splits)
    have ex: "getPagesByRaindropIds d1 ids n \<noteq> None"
      if "n \<in> set ids" "getPagesByRaindropIds d ids n \<noteq> None" for ids n
      using lookup_iff[OF rows that(1)] lookup_iff[OF dd1 that(1)] that(2) sub by blast
    have rel0: "simRel initPassA initPassA" by (simp add: simRel_def initPassA_def)
    from loop_sim[OF pa1 rel0 ex ord] obtain a2' where
      pa2: "passALoop w e k d1 0 initPassA = Inr a2'"
      and same: "passAItems a2' = passAItems a1"
      by blast
    have "syncCandidates w e k d1 = Inr (a2', b1, cands1)"
      using pa2 pbm pb same cs by (simp add: syncCandidates_def)
    then show ?thesis by blast
  qed
  from part1 part2 dd1 show ?thesis by blast
qed

text \<open>An instance: a run that creates one row and updates another, and the same run again.\<close>

theorem C9_witness:
  "\<exists>rep1 d1 rep2.
     syncRun (demoWorld 5000 [demoItem 1 (Instant 500) None, demoItem 2 (Instant 400) (Some (Instant 450))]
                (Response 404 None)) demoEnv (demoKnobs False)
       [demoPage 2 (Some (Instant 100)) False] = Inr (rep1, d1)
     \<and> rep_created rep1 = 1 \<and> rep_updated rep1 = 1
     \<and> syncRun (demoWorld 5000 [demoItem 1 (Instant 500) None, demoItem 2 (Instant 400) (Some (Instant 450))]
                (Response 404 None)) demoEnv (demoKnobs False) d1 = Inr (rep2, d1)
     \<and> rep_created rep2 = 0 \<and> rep_updated rep2 = 0"
proof -
  let ?items = "[demoItem 1 (Instant 500) None, demoItem 2 (Instant 400) (Some (Instant 450))]"
  let ?w = "demoWorld 5000 ?items (Response 404 None)"
  let ?d = "[demoPage 2 (Some (Instant 100)) False]"
  let ?k = "demoKnobs False"
  let ?run = "syncRun ?w demoEnv ?k ?d"
  have ev: "map_sum id (\<lambda>(r, d). (rep_created r, rep_updated r)) ?run = Inr (1, 1)"
    by code_simp
  then obtain rep1 d1 where run: "?run = Inr (rep1, d1)"
    and rp: "rep_created rep1 = 1" "rep_updated rep1 = 1"
    by (cases ?run) auto
  have "\<not> isl (syncCandidates ?w demoEnv ?k ?d)" by code_simp
  then obtain a1 b1 cands1 where c1: "syncCandidates ?w demoEnv ?k ?d = Inr (a1, b1, cands1)"
    by (cases "syncCandidates ?w demoEnv ?k ?d") auto
  have real: "\<not> dryRun ?k" by (simp add: demoKnobs_def)
  have rows: "distinct (rowIds ?d)" by (simp add: rowIds_def demoPage_def)
  have ord: "windowOrdered ?w demoEnv ?k"
  proof (rule windowOrdered_fresh)
    fix pg xs x
    assume "fetchRecentRaindrops ?w demoEnv (collId ?k) (perPageA ?k) pg = Inr xs"
      and x: "x \<in> set xs"
    then have "xs = drop (pg * 50) ?items"
      by (simp add: fetchRecentRaindrops_def getRaindropToken_def demoEnv_def demoWorld_def
          demoKnobs_def ok_def)
    with x have "x \<in> set ?items" by (meson in_set_dropD)
    then show "\<not> createdOld ?k x"
      by (auto simp: createdOld_def demoItem_def demoKnobs_def)
  qed
  note inst = C9_second_run_is_idle[OF run real rows c1, where w' = ?w and k' = ?k]
  from inst ord obtain a b where c2: "syncCandidates ?w demoEnv ?k d1 = Inr (a, b, cands1)"
    by blast
  from inst[where ?a2.0 = a and ?b2.0 = b and ?cands2.0 = cands1] c2 real
  obtain rep2 where "syncRun ?w demoEnv ?k d1 = Inr (rep2, d1)"
    "rep_created rep2 = 0" "rep_updated rep2 = 0"
    by auto
  then show ?thesis using run rp by blast
qed

text \<open>
  The claim as stated fails when the window has moved between the runs and the first run
  was cut by the cap. With \<open>limit=2\<close> the first run has the candidates 1, 2 and 3 and creates
  the rows of 1 and 2. One millisecond later item 2 lies before the window; the second run
  has the candidates 1 and 3, and creates the row of 3, although the Source did not change.
\<close>

theorem C9_counterexample:
  "(case syncHandler (searchWorld 8817300000 boundaryItems) demoEnv
           \<lparr>q_limit = Single ''2'', q_dryRun = Absent\<rparr> [] of
      Inl err \<Rightarrow> None
    | Inr (rep1, d1) \<Rightarrow>
        (case syncHandler (searchWorld 8817300001 boundaryItems) demoEnv
                \<lparr>q_limit = Single ''2'', q_dryRun = Absent\<rparr> d1 of
           Inl err \<Rightarrow> None
         | Inr (rep2, d2) \<Rightarrow>
             Some (rep_createdIds rep1, rep_createdIds rep2, rep_created rep2, length d1, length d2)))
     = Some (Some [1, 2], Some [3], 1, 2, 3)
   \<and> map_sum id since (syncKnobs (searchWorld 8817300000 boundaryItems) demoEnv
                          \<lparr>q_limit = Single ''2'', q_dryRun = Absent\<rparr>) = Inr 8643600000
   \<and> map_sum id since (syncKnobs (searchWorld 8817300001 boundaryItems) demoEnv
                          \<lparr>q_limit = Single ''2'', q_dryRun = Absent\<rparr>) = Inr 8643600001"
  by code_simp

text \<open>
  C10, as the code has it. The item's comparison key is \<open>lastUpdate || created\<close>. For a row
  that is found, unlocked and without a stored timestamp, the item is classified as an
  update (in the preview list of a dry run, in the updated list of a real run) exactly when
  that key is not empty, that is when the item has a non-empty last-modified or creation
  timestamp; with an empty key it is reported as already existing.
\<close>

theorem C10_missing_stored_timestamp_is_update:
  assumes "syncRun w e k d = Inr (rep, d')"
    and "syncCandidates w e k d = Inr (a, b, cands)" "item \<in> set cands"
    and "getPagesByRaindropIds d (map item_id cands) (item_id item) = Some found"
    and "\<not> locked found"
    and "raindropLastUpdate found = None \<or> raindropLastUpdate found = Some Empty"
  shows "\<exists>ids. (if dryRun k then rep_toUpdatePreview rep else rep_updatedIds rep) = Some ids
            \<and> (item_id item \<in> set ids \<longleftrightarrow>
                 (\<exists>s. lastUpdate item = Some s \<and> s \<noteq> Empty) \<or> created item \<noteq> Empty)
            \<and> (item_id item \<in> set (rep_alreadyExists rep) \<longleftrightarrow>
                 (lastUpdate item = None \<or> lastUpdate item = Some Empty) \<and> created item = Empty)"
proof -
  let ?m = "getPagesByRaindropIds d (map item_id cands)"
  from assms(1,2) obtain u where
    loop: "upsertLoop w e k ?m cands (initUpsert d) = Inr u"
    and rep: "rep = syncReport k a b cands u"
    by (rule syncRun_unfold)
  have dist: "distinct (map item_id cands)" using assms(2) by (rule syncCandidates_distinct)
  have nt: "\<not> truthy (raindropLastUpdate found)" using assms(6) by auto
  have key: "truthy (itemLast item) \<longleftrightarrow>
      (\<exists>s. lastUpdate item = Some s \<and> s \<noteq> Empty) \<or> created item \<noteq> Empty"
    by (cases "lastUpdate item"; cases "the (lastUpdate item)"; cases "created item")
       (simp_all add: itemLast_def)
  have upd: "isUpdate ?m item \<longleftrightarrow>
      (\<exists>s. lastUpdate item = Some s \<and> s \<noteq> Empty) \<or> created item \<noteq> Empty"
    using assms(4,5) newerThan_missing[OF nt, of "itemLast item"] key by (simp add: isUpdate_def)
  show ?thesis
    using updatedIds_mem[OF loop dist assms(3)] upd assms(4)
    by (auto simp: rep syncReport_def)
qed

text \<open>An instance: a dry run over an item with a creation timestamp only.\<close>

theorem C10_witness:
  "\<exists>rep d'. syncRun (demoWorld 5000 [demoItem 1 (Instant 500) None] (Response 404 None)) demoEnv
               (demoKnobs True) [demoPage 1 None False] = Inr (rep, d')
     \<and> (\<exists>ids. rep_toUpdatePreview rep = Some ids \<and> 1 \<in> set ids)"
proof -
  let ?w = "demoWorld 5000 [demoItem 1 (Instant 500) None] (Response 404 None)"
  let ?d = "[demoPage 1 None False]"
  let ?it = "demoItem 1 (Instant 500) None"
  let ?f = "\<lparr>pageId = 0, raindropLastUpdate = None, locked = False\<rparr>"
  have "\<not> isl (syncRun ?w demoEnv (demoKnobs True) ?d)" by code_simp
  then obtain rep d' where run: "syncRun ?w demoEnv (demoKnobs True) ?d = Inr (rep, d')"
    using sum_prod_cases by blast
  have "map_sum id (snd \<circ> snd) (syncCandidates ?w demoEnv (demoKnobs True) ?d) = Inr [?it]"
    by code_simp
  then obtain a b where c: "syncCandidates ?w demoEnv (demoKnobs True) ?d = Inr (a, b, [?it])"
    by (cases "syncCandidates ?w demoEnv (demoKnobs True) ?d") auto
  have f: "getPagesByRaindropIds ?d (map item_id [?it]) (item_id ?it) = Some ?f" by code_simp
  have st: "raindropLastUpdate ?f = None \<or> raindropLastUpdate ?f = Some Empty" by simp
  have cr: "created ?it \<noteq> Empty" by code_simp
  have dr: "dryRun (demoKnobs True)" by code_simp
  have id1: "item_id ?it = 1" by code_simp
  from C10_missing_stored_timestamp_is_update[OF run c _ f _ st]
  show ?thesis using run id1 dr cr by auto
qed

text \<open>
  The claim as stated fails for an item whose key is empty: with an empty creation timestamp
  and no last-modified one, \<open>newerThan\<close> answers false, the row is not updated and keeps its
  missing timestamp.
\<close>

theorem C10_counterexample:
  "map_sum id (\<lambda>(r, d). (rep_updatedIds r, rep_alreadyExists r, p_RaindropLastUpdate (d ! 0)))
     (syncHandler (demoWorld 5000 [demoItem 1 Empty None] (Response 404 None)) demoEnv
        \<lparr>q_limit = Absent, q_dryRun = Absent\<rparr> [demoPage 1 None False])
   = Inr (Some [], [1], None)"
  by code_simp

end
